theory Spec2Isabelle
  imports Main "HOL-Library.Word" "HOL-Library.Log_Nat" "HOL-Library.Multiset"
begin

section \<open>IEEE-754 binary64, the arithmetic of Go's \<open>float64\<close>\<close>

text \<open>
  A \<open>float64\<close> is a signed magnitude, a signed infinity or NaN. The sign is \<open>True\<close> for
  negative values, so \<open>Finite False 0\<close> is \<open>+0\<close> (Go's zero value) and \<open>Finite True 0\<close>
  is \<open>-0\<close>. Every operation computes the exact rational result and rounds it to the nearest
  value with a 53-bit significand, ties to even, as the hardware does.
\<close>

datatype float64 = Finite bool rat | Infinity bool | NaN

definition flog2 :: "rat \<Rightarrow> int" where
  \<comment> \<open>for \<open>0 < a\<close>: the exponent \<open>e\<close> with \<open>2^e \<le> a < 2^(e+1)\<close>\<close>
  "flog2 a = (case quotient_of a of (p, q) \<Rightarrow>
     (let d = bitlen p - bitlen q in if 2 powi d \<le> a then d else d - 1))"

definition round_half_even :: "rat \<Rightarrow> int" where
  "round_half_even x =
     (let f = \<lfloor>x\<rfloor>; d = x - of_int f
      in if d < 1 / 2 then f else if 1 / 2 < d then f + 1 else if even f then f else f + 1)"

definition round64 :: "bool \<Rightarrow> rat \<Rightarrow> float64" where
  \<comment> \<open>rounds the magnitude \<open>a \<ge> 0\<close>; exponents below \<open>-1022\<close> are subnormal, results from
      \<open>2^1024\<close> on overflow to infinity\<close>
  "round64 s a =
     (if a = 0 then Finite s 0
      else let e = max (flog2 a) (- 1022);
               u = 2 powi (e - 52);
               v = of_int (round_half_even (a / u)) * u
           in if 2 powi 1024 \<le> v then Infinity s else Finite s v)"

definition representable :: "rat \<Rightarrow> bool" where
  \<comment> \<open>the magnitudes that binary64 holds exactly\<close>
  "representable a \<longleftrightarrow>
     (\<exists>m e. a = of_nat m * 2 powi e \<and> m < 2 ^ 53 \<and> - 1074 \<le> e) \<and> a < 2 powi 1024"

definition sval :: "bool \<Rightarrow> rat \<Rightarrow> rat" where
  "sval s a = (if s then - a else a)"

fun fsub :: "float64 \<Rightarrow> float64 \<Rightarrow> float64" where
  "fsub NaN _ = NaN"
| "fsub _ NaN = NaN"
| "fsub (Infinity s) (Infinity t) = (if s = t then NaN else Infinity s)"
| "fsub (Infinity s) (Finite t b) = Infinity s"
| "fsub (Finite s a) (Infinity t) = Infinity (\<not> t)"
| "fsub (Finite s a) (Finite t b) =
     (let r = sval s a - sval t b
      in if r = 0 then Finite (s \<and> \<not> t) 0 else round64 (r < 0) \<bar>r\<bar>)"

fun fmul :: "float64 \<Rightarrow> float64 \<Rightarrow> float64" where
  "fmul NaN _ = NaN"
| "fmul _ NaN = NaN"
| "fmul (Infinity s) (Infinity t) = Infinity (s \<noteq> t)"
| "fmul (Infinity s) (Finite t b) = (if b = 0 then NaN else Infinity (s \<noteq> t))"
| "fmul (Finite s a) (Infinity t) = (if a = 0 then NaN else Infinity (s \<noteq> t))"
| "fmul (Finite s a) (Finite t b) = round64 (s \<noteq> t) (a * b)"

fun fdiv :: "float64 \<Rightarrow> float64 \<Rightarrow> float64" where
  "fdiv NaN _ = NaN"
| "fdiv _ NaN = NaN"
| "fdiv (Infinity s) (Infinity t) = NaN"
| "fdiv (Infinity s) (Finite t b) = Infinity (s \<noteq> t)"
| "fdiv (Finite s a) (Infinity t) = Finite (s \<noteq> t) 0"
| "fdiv (Finite s a) (Finite t b) =
     (if b = 0 then (if a = 0 then NaN else Infinity (s \<noteq> t))
      else round64 (s \<noteq> t) (a / b))"

fun is_zero :: "float64 \<Rightarrow> bool" where
  \<comment> \<open>Go's \<open>x == 0\<close>: true of both zeros\<close>
  "is_zero (Finite s a) = (a = 0)"
| "is_zero _ = False"

definition float64_of_uint64 :: "64 word \<Rightarrow> float64" where
  \<comment> \<open>the conversion \<open>float64(x)\<close> of a \<open>uint64\<close>\<close>
  "float64_of_uint64 w = round64 False (of_nat (unat w))"

definition float64_of_int :: "int \<Rightarrow> float64" where
  \<comment> \<open>the conversion \<open>float64(n)\<close> of an \<open>int\<close>\<close>
  "float64_of_int i = round64 (i < 0) (of_int \<bar>i\<bar>)"


section \<open>The data model\<close>

text \<open>
  The container runtime's types, with the fields this program reads. A Go \<open>string\<close> is a
  byte sequence; a \<open>map\<close> is a partial function whose lookup of a missing key yields the
  zero value.
\<close>

datatype error = ContainerNotFound string | RuntimeError string

datatype fault = SliceBoundsOutOfRange | IndexOutOfRange

record Container =
  ID :: string
  Names :: "string list"
  State :: string

record Stats =
  CPUPercentage :: float64
  MemoryUsage :: float64
  MemoryLimit :: float64
  NetworkRx :: float64
  NetworkTx :: float64

record ContainerStat =
  Container :: Container
  Stats :: Stats

record CPUUsage =
  TotalUsage :: "64 word"
  PercpuUsage :: "64 word list"

record CPUStats =
  CPUUsage :: CPUUsage
  SystemUsage :: "64 word"

record MemoryStats =
  Usage :: "64 word"
  Limit :: "64 word"

record NetworkStats =
  RxBytes :: "64 word"
  TxBytes :: "64 word"

record StatsResponse =
  CPUStats :: CPUStats
  PreCPUStats :: CPUStats
  MemoryStats :: MemoryStats
  Networks :: "string \<rightharpoonup> NetworkStats"

record ListOptions =
  All' :: bool  \<comment> \<open>the option \<open>All\<close>: list stopped containers too\<close>

text \<open>
  A response body is represented by what \<open>json.Decoder.Decode\<close> makes of it: a decoding
  error or the decoded snapshot. The client is the two read operations of the runtime that
  the program calls: the listing, and the stats request for an identifier, which within one
  batch answers by identifier.
\<close>

type_synonym body = "error + StatsResponse"

record client =
  ContainerList :: "ListOptions \<Rightarrow> error + Container list"
  ContainerStats :: "string \<Rightarrow> error + body"

definition Decode :: "body \<Rightarrow> error + StatsResponse" where
  "Decode b = b"

definition zeroContainer :: Container where
  "zeroContainer = \<lparr>ID = [], Names = [], State = []\<rparr>"

definition zeroStats :: Stats where
  "zeroStats = \<lparr>CPUPercentage = Finite False 0, MemoryUsage = Finite False 0,
     MemoryLimit = Finite False 0, NetworkRx = Finite False 0, NetworkTx = Finite False 0\<rparr>"

definition zeroContainerStat :: ContainerStat where
  "zeroContainerStat = \<lparr>Container = zeroContainer, Stats = zeroStats\<rparr>"

definition zeroNetworkStats :: NetworkStats where
  "zeroNetworkStats = \<lparr>RxBytes = 0, TxBytes = 0\<rparr>"

definition lookup :: "(string \<rightharpoonup> NetworkStats) \<Rightarrow> string \<Rightarrow> NetworkStats" where
  \<comment> \<open>the map index expression \<open>m[k]\<close>\<close>
  "lookup m k = (case m k of None \<Rightarrow> zeroNetworkStats | Some v \<Rightarrow> v)"


section \<open>pkg/stats\<close>

text \<open>
  \<open>calculateCPUPercentage\<close> (stats.go, lines 81 to 91) and \<open>GetContainerStats\<close> (lines 25
  to 79). Closing the response body can only add a line to the log and is left out.
\<close>

definition calculateCPUPercentage :: "StatsResponse \<Rightarrow> float64" where
  "calculateCPUPercentage stats =
     (let perCpuUsageLen = int (length (PercpuUsage (CPUUsage (CPUStats stats))));
          perCpuUsageLen = (if perCpuUsageLen = 0 then 7 else perCpuUsageLen);
          cpuDelta = fsub (float64_of_uint64 (TotalUsage (CPUUsage (CPUStats stats))))
                          (float64_of_uint64 (TotalUsage (CPUUsage (PreCPUStats stats))));
          systemDelta = fsub (float64_of_uint64 (SystemUsage (CPUStats stats)))
                             (float64_of_uint64 (SystemUsage (PreCPUStats stats)));
          cpuPercent = fmul (fmul (fdiv cpuDelta systemDelta) (float64_of_int perCpuUsageLen))
                            (Finite False 100)
      in cpuPercent)"

definition GetContainerStats :: "client \<Rightarrow> string \<Rightarrow> error + Stats" where
  "GetContainerStats cli containerID =
     (case ContainerStats cli containerID of
        Inl err \<Rightarrow> Inl err
      | Inr stats_Body \<Rightarrow>
          (case Decode stats_Body of
             Inl err \<Rightarrow> Inl err
           | Inr statsJSON \<Rightarrow>
               (let cpuPercent = calculateCPUPercentage statsJSON;
                    memoryUsage = fdiv (fdiv (float64_of_uint64 (Usage (MemoryStats statsJSON)))
                                    (Finite False 1024)) (Finite False 1024);
                    memoryLimit = fdiv (fdiv (float64_of_uint64 (Limit (MemoryStats statsJSON)))
                                    (Finite False 1024)) (Finite False 1024);
                    networkRx = fdiv (fdiv (float64_of_uint64
                                    (RxBytes (lookup (Networks statsJSON) ''eth0'')))
                                    (Finite False 1024)) (Finite False 1024);
                    networkTx = fdiv (fdiv (float64_of_uint64
                                    (TxBytes (lookup (Networks statsJSON) ''eth0'')))
                                    (Finite False 1024)) (Finite False 1024)
                in Inr \<lparr>CPUPercentage = cpuPercent, MemoryUsage = memoryUsage,
                         MemoryLimit = memoryLimit, NetworkRx = networkRx,
                         NetworkTx = networkTx\<rparr>)))"

text \<open>
  What the program writes and when it pauses, in order: the lines of the standard logger, the
  escape sequences and rows of the renderer, and the one-second sleep.
\<close>

datatype event =
    LogFetchError string error
  | LogFindError error
  | LogListError error
  | LogNoContainers
  | Cleared bool
  | Header
  | HorizontalRow string Stats
  | VerticalBlock string Stats
  | Sleep

text \<open>
  \<open>FetchContainerStatsParallel\<close> starts one goroutine per element of \<open>containers\<close>, each
  with its index and its container. A goroutine whose fetch fails logs and returns; one whose
  fetch succeeds sends its index and sample on \<open>statsChan\<close>, whose buffer holds
  \<open>len(containers)\<close> messages, so no send blocks. The channel is closed once every goroutine
  is done, and the caller's \<open>range\<close> loop receives the messages in the order they were sent.
  That order is the one thing the scheduler decides: the model takes it as \<open>completion\<close>, the
  spawned goroutines in the order they finish.
\<close>

type_synonym task = "nat \<times> Container"

type_synonym message = "nat \<times> ContainerStat"

definition spawned :: "Container list \<Rightarrow> task list" where
  \<comment> \<open>the goroutines of \<open>for index, _container := range containers\<close>, each with the
      arguments \<open>(index, _container)\<close> it is started with\<close>
  "spawned containers = zip [0..<length containers] containers"

definition worker :: "client \<Rightarrow> task \<Rightarrow> event list \<times> message option" where
  \<comment> \<open>the body of a goroutine (lines 102 to 116): what it logs and what it sends\<close>
  "worker cli t =
     (case t of (i, c) \<Rightarrow>
        (case GetContainerStats cli (ID c) of
           Inl err \<Rightarrow> ([LogFetchError (ID c) err], None)
         | Inr stats \<Rightarrow> ([], Some (i, \<lparr>Container = c, Stats = stats\<rparr>))))"

fun receive :: "message list \<Rightarrow> ContainerStat list \<Rightarrow> fault + ContainerStat list" where
  \<comment> \<open>\<open>for result := range statsChan { results[result.Index] = result.Stat }\<close>\<close>
  "receive [] results = Inr results"
| "receive ((Index, Stat) # statsChan) results =
     (if Index < length results then receive statsChan (results[Index := Stat])
      else Inl IndexOutOfRange)"

definition FetchContainerStatsParallel ::
  "client \<Rightarrow> task list \<Rightarrow> Container list \<Rightarrow> event list \<times> (fault + ContainerStat list)" where
  \<comment> \<open>lines 93 to 133: the log, and the batch or the panic of an index out of range\<close>
  "FetchContainerStatsParallel cli completion containers =
     (let outcomes = map (worker cli) completion;
          statsChan = List.map_filter snd outcomes;
          results = replicate (length containers) zeroContainerStat
      in (concat (map fst outcomes), receive statsChan results))"

definition slot :: "client \<Rightarrow> Container \<Rightarrow> ContainerStat" where
  \<comment> \<open>what the batch is to hold for a container: its sample, or the zero value when the
      fetch or the decoding fails\<close>
  "slot cli c =
     (case GetContainerStats cli (ID c) of
        Inl err \<Rightarrow> zeroContainerStat
      | Inr stats \<Rightarrow> \<lparr>Container = c, Stats = stats\<rparr>)"





section \<open>pkg/container\<close>

text \<open>
  \<open>FindContainer\<close> (container.go, lines 13 to 36): \<open>scan\<close> is its loop over the listing
  and \<open>matchName\<close> the inner loop over the names of one container.
\<close>

definition HasPrefix :: "string \<Rightarrow> string \<Rightarrow> bool" where
  \<comment> \<open>\<open>strings.HasPrefix(s, prefix)\<close>\<close>
  "HasPrefix s pre = (length pre \<le> length s \<and> take (length pre) s = pre)"

fun matchName :: "string list \<Rightarrow> string \<Rightarrow> bool" where
  "matchName [] containerSpecifier = False"
| "matchName (name # names) containerSpecifier =
     (if name = containerSpecifier \<or> name = ''/'' @ containerSpecifier then True
      else matchName names containerSpecifier)"

fun scan :: "Container list \<Rightarrow> string \<Rightarrow> Container option" where
  "scan [] containerSpecifier = None"
| "scan (c # containers) containerSpecifier =
     (if HasPrefix (ID c) containerSpecifier then Some c
      else if matchName (Names c) containerSpecifier then Some c
      else scan containers containerSpecifier)"

definition FindContainer :: "client \<Rightarrow> string \<Rightarrow> error + Container" where
  "FindContainer cli containerSpecifier =
     (case ContainerList cli \<lparr>All' = True\<rparr> of
        Inl err \<Rightarrow> Inl err
      | Inr containers \<Rightarrow>
          (case scan containers containerSpecifier of
             Some c \<Rightarrow> Inr c
           | None \<Rightarrow> Inl (ContainerNotFound containerSpecifier)))"

definition ReturnListOptions :: ListOptions where
  "ReturnListOptions = \<lparr>All' = False\<rparr>"

definition matches :: "Container \<Rightarrow> string \<Rightarrow> bool" where
  \<comment> \<open>the specifier is a prefix of the identifier, or one of the names, or one of the names
      without its leading separator\<close>
  "matches c containerSpecifier \<longleftrightarrow>
     HasPrefix (ID c) containerSpecifier
     \<or> (\<exists>name \<in> set (Names c). name = containerSpecifier \<or> name = ''/'' @ containerSpecifier)"


section \<open>pkg/utils and the poll loop\<close>

text \<open>
  \<open>PrintStatsVertically\<close> and \<open>PrintStatsHorizontally\<close> of utils.go, and the body of the
  \<open>for\<close> loop of \<open>main\<close>. The renderer's rows are kept as the text of the
  identifier-and-name field and the sample: the layout of the numbers is \<open>fmt\<close>'s.
  \<open>green\<close> is the colouring function of the terminal library. Slicing a string beyond its
  length and indexing an empty slice are runtime panics.
\<close>

definition PrintStatsVertically :: "Container \<Rightarrow> Stats \<Rightarrow> fault + event" where
  "PrintStatsVertically c stats =
     (case Names c of
        [] \<Rightarrow> Inl IndexOutOfRange
      | name # _ \<Rightarrow> Inr (VerticalBlock name stats))"

definition PrintStatsHorizontally :: "(string \<Rightarrow> string) \<Rightarrow> Container \<Rightarrow> Stats \<Rightarrow> fault + event" where
  "PrintStatsHorizontally green c stats =
     (let maxIdLength = 12; maxCombinedLength = 60
      in if length (ID c) < maxIdLength then Inl SliceBoundsOutOfRange
         else (case Names c of
                 [] \<Rightarrow> Inl IndexOutOfRange
               | containerName # _ \<Rightarrow>
                   (let containerID = take maxIdLength (ID c);
                        combinedField = green containerID @ '' '' @ containerName;
                        combinedField =
                          (if length combinedField > maxCombinedLength
                           then take (maxCombinedLength - 3) combinedField @ ''...''
                           else combinedField)
                    in Inr (HorizontalRow combinedField stats))))"

fun render :: "bool \<Rightarrow> (string \<Rightarrow> string) \<Rightarrow> ContainerStat list \<Rightarrow> event list \<times> fault option" where
  \<comment> \<open>\<open>for _, stat := range s\<close>: a panic ends the process with the rows printed so far\<close>
  "render verticalFlag green [] = ([], None)"
| "render verticalFlag green (stat # s) =
     (case (if verticalFlag then PrintStatsVertically (Container stat) (Stats stat)
            else PrintStatsHorizontally green (Container stat) (Stats stat)) of
        Inl f \<Rightarrow> ([], Some f)
      | Inr row \<Rightarrow> (case render verticalFlag green s of (rows, r) \<Rightarrow> (row # rows, r)))"

definition resolve :: "client \<Rightarrow> string list \<Rightarrow> event list + Container list" where
  \<comment> \<open>the head of the loop body: \<open>Inl\<close> is a \<open>continue\<close>, with what was logged before it\<close>
  "resolve cli args =
     (case args of
        containerSpecifier # _ \<Rightarrow>
          (case FindContainer cli containerSpecifier of
             Inl err \<Rightarrow> Inl [LogFindError err]
           | Inr c \<Rightarrow> Inr [c])
      | [] \<Rightarrow>
          (case ContainerList cli ReturnListOptions of
             Inl err \<Rightarrow> Inl [LogListError err]
           | Inr listOfContainers \<Rightarrow>
               if length listOfContainers = 0 then Inl [LogNoContainers, Sleep]
               else Inr listOfContainers))"

definition iteration ::
  "client \<Rightarrow> (string \<Rightarrow> string) \<Rightarrow> bool \<Rightarrow> string list \<Rightarrow> (Container list \<Rightarrow> task list)
     \<Rightarrow> event list \<times> fault option" where
  \<comment> \<open>one pass of the \<open>for\<close> loop of \<open>main\<close>; \<open>Some f\<close> is the panic that ends the process\<close>
  "iteration cli green verticalFlag args schedule =
     (case resolve cli args of
        Inl logged \<Rightarrow> (logged, None)
      | Inr containers \<Rightarrow>
          (case FetchContainerStatsParallel cli (schedule containers) containers of
             (logged, Inl f) \<Rightarrow> (logged, Some f)
           | (logged, Inr s) \<Rightarrow>
               (let screen = logged @ [Cleared verticalFlag]
                               @ (if \<not> verticalFlag then [Header] else [])
                in case render verticalFlag green s of
                     (rows, Some f) \<Rightarrow> (screen @ rows, Some f)
                   | (rows, None) \<Rightarrow> (screen @ rows @ [Sleep], None))))"


section \<open>Fixtures\<close>

definition snapshot :: "64 word \<Rightarrow> 64 word \<Rightarrow> 64 word \<Rightarrow> 64 word \<Rightarrow> 64 word list \<Rightarrow> StatsResponse" where
  \<comment> \<open>a snapshot with the given CPU counters (current, previous, current system, previous
      system) and per-core list, and nothing else\<close>
  "snapshot cur prev cursys prevsys percpu =
     \<lparr>CPUStats = \<lparr>CPUUsage = \<lparr>TotalUsage = cur, PercpuUsage = percpu\<rparr>, SystemUsage = cursys\<rparr>,
      PreCPUStats = \<lparr>CPUUsage = \<lparr>TotalUsage = prev, PercpuUsage = percpu\<rparr>, SystemUsage = prevsys\<rparr>,
      MemoryStats = \<lparr>Usage = 0, Limit = 0\<rparr>,
      Networks = Map.empty\<rparr>"

definition web :: Container where
  "web = \<lparr>ID = ''4f2a9c01d3b7e6a58810'', Names = [''/web''], State = ''running''\<rparr>"

definition db :: Container where
  "db = \<lparr>ID = ''4f2b77aa90c1d2e3f001'', Names = [''/db''], State = ''running''\<rparr>"

definition cache :: Container where
  "cache = \<lparr>ID = ''9e01c2d3a4b5f6a7c3d2'', Names = [''/cache''], State = ''exited''\<rparr>"

definition fleet :: "Container list" where
  "fleet = [web, db, cache]"

definition websnap :: StatsResponse where
  "websnap = (snapshot 20 10 200 100 [0, 0, 0, 0])
     \<lparr>MemoryStats := \<lparr>Usage = 1048576, Limit = 2097152\<rparr>,
      Networks := [''eth0'' \<mapsto> \<lparr>RxBytes = 3145728, TxBytes = 1048576\<rparr>]\<rparr>"

definition answers :: "string \<Rightarrow> error + body" where
  \<comment> \<open>\<open>web\<close> answers with a snapshot, \<open>cache\<close> with an all-zero one that has no network
      interface, and every other identifier is refused\<close>
  "answers containerID =
     (if containerID = ID web then Inr (Inr websnap)
      else if containerID = ID cache then Inr (Inr (snapshot 0 0 0 0 []))
      else Inl (RuntimeError ''No such container''))"

definition runtime :: "Container list \<Rightarrow> (string \<Rightarrow> error + body) \<Rightarrow> client" where
  \<comment> \<open>a runtime with the given containers, of which a listing without \<open>All\<close> shows the
      running ones\<close>
  "runtime listing stats =
     \<lparr>ContainerList = (\<lambda>options. Inr (if All' options then listing
                                       else filter (\<lambda>c. State c = ''running'') listing)),
      ContainerStats = stats\<rparr>"


section \<open>Facts about binary64 rounding\<close>

lemma bitlen_powi_bounds:
  assumes "0 < (p::int)"
  shows "(2::rat) powi (bitlen p - 1) \<le> of_int p" and "of_int p < (2::rat) powi bitlen p"
proof -
  from bitlen_bounds[OF assms] have a: "2 ^ nat (bitlen p - 1) \<le> p" and b: "p < 2 ^ nat (bitlen p)"
    by auto
  have ge1: "1 \<le> bitlen p" using assms by (auto simp: bitlen_alt_def)
  have "(of_int (2 ^ nat (bitlen p - 1)) :: rat) \<le> of_int p" using a by (simp only: of_int_le_iff)
  then show "(2::rat) powi (bitlen p - 1) \<le> of_int p"
    using ge1 by (simp add: power_int_nonneg_exp)
  have "(of_int p :: rat) < of_int (2 ^ nat (bitlen p))" using b by (simp only: of_int_less_iff)
  then show "of_int p < (2::rat) powi bitlen p"
    using ge1 by (simp add: power_int_nonneg_exp)
qed

lemma powi2_less_iff: "(2::rat) powi m < 2 powi n \<longleftrightarrow> m < n"
proof
  assume l: "(2::rat) powi m < 2 powi n"
  show "m < n"
  proof (rule ccontr)
    assume "\<not> m < n"
    then have "n \<le> m" by simp
    then have "(2::rat) powi n \<le> 2 powi m" by (rule power_int_increasing) simp
    with l show False by simp
  qed
next
  assume "m < n"
  then show "(2::rat) powi m < 2 powi n" by (rule power_int_strict_increasing) simp
qed

lemma powi2_le_iff: "(2::rat) powi m \<le> 2 powi n \<longleftrightarrow> m \<le> n"
  using powi2_less_iff[of n m] by (simp only: linorder_not_less[symmetric])

lemma flog2_bounds:
  assumes "0 < a"
  shows "2 powi (flog2 a) \<le> a \<and> a < 2 powi (flog2 a + 1)"
proof -
  obtain p q where pq: "quotient_of a = (p, q)" by (cases "quotient_of a")
  have q: "0 < q" using pq quotient_of_denom_pos by blast
  have a: "a = of_int p / of_int q" using pq quotient_of_div by blast
  have p: "0 < p" using assms q a by (simp add: zero_less_divide_iff)
  let ?d = "bitlen p - bitlen q"
  note bp = bitlen_powi_bounds[OF p] and bq = bitlen_powi_bounds[OF q]
  have qpos: "(0::rat) < of_int q" using q by simp
  have "a < 2 powi bitlen p / 2 powi (bitlen q - 1)"
    unfolding a using bp(2) bq(1) qpos
    by (intro frac_less) (use p in auto)
  also have "\<dots> = 2 powi (?d + 1)"
    by (simp add: power_int_diff power_int_add field_simps)
  finally have up: "a < 2 powi (?d + 1)" .
  have "2 powi (bitlen p - 1) / 2 powi bitlen q \<le> a"
    unfolding a using bp(1) bq(2) qpos
    by (intro frac_le) (use p in \<open>auto intro: order_less_imp_le\<close>)
  moreover have "2 powi (bitlen p - 1) / 2 powi bitlen q = (2::rat) powi (?d - 1)"
    by (simp add: power_int_diff power_int_add field_simps)
  ultimately have lo: "2 powi (?d - 1) \<le> a" by simp
  show ?thesis
    using up lo by (simp add: flog2_def pq Let_def)
qed


lemma round_half_even_near:
  assumes "\<bar>x - of_int m\<bar> < 1 / 2"
  shows "round_half_even x = m"
proof -
  consider "of_int m \<le> x" | "x < of_int m" by linarith
  then show ?thesis
  proof cases
    case 1
    then have "\<lfloor>x\<rfloor> = m" using assms by (intro floor_unique) auto
    then show ?thesis using assms 1 by (simp add: round_half_even_def Let_def)
  next
    case 2
    then have f: "\<lfloor>x\<rfloor> = m - 1" using assms by (intro floor_unique) auto
    have "1 / 2 < x - of_int (m - 1)" using assms 2 by auto
    then show ?thesis using f by (simp add: round_half_even_def Let_def)
  qed
qed

lemma round_half_even_of_int [simp]: "round_half_even (of_int m) = m"
  by (rule round_half_even_near) simp

lemma round_half_even_lower:
  assumes "of_int k \<le> x" shows "k \<le> round_half_even x"
proof -
  have "k \<le> \<lfloor>x\<rfloor>" using assms by (simp add: le_floor_iff)
  then show ?thesis by (auto simp: round_half_even_def Let_def)
qed

lemma round_half_even_upper:
  assumes "x \<le> of_int k" shows "round_half_even x \<le> k"
proof (cases "x = of_int k")
  case True
  then show ?thesis by simp
next
  case False
  then have "x < of_int k" using assms by simp
  then have "\<lfloor>x\<rfloor> < k" by (simp add: floor_less_iff)
  then show ?thesis by (auto simp: round_half_even_def Let_def)
qed

lemma powi2_div: "2 powi a / 2 powi b = (2::rat) powi (a - b)"
  by (simp add: power_int_diff)

lemma powi2_mult: "2 powi a * 2 powi b = (2::rat) powi (a + b)"
  by (simp add: power_int_add)

lemma powi2_53_mult: "2 powi 53 * 2 powi (e - 52) = (2::rat) powi (e + 1)"
proof -
  have "53 + (e - 52) = e + 1" by simp
  then show ?thesis by (simp only: powi2_mult)
qed

lemma powi2_52_mult: "2 powi 52 * 2 powi (e - 52) = (2::rat) powi e"
proof -
  have "52 + (e - 52) = e" by simp
  then show ?thesis by (simp only: powi2_mult)
qed

lemma representableI:
  "a = of_nat m * 2 powi e \<Longrightarrow> m < 2 ^ 53 \<Longrightarrow> - 1074 \<le> e \<Longrightarrow> a < 2 powi 1024
     \<Longrightarrow> representable a"
  unfolding representable_def by blast


lemma of_int_ge_pow2: "2 ^ n \<le> m \<Longrightarrow> (2::rat) ^ n \<le> of_int m"
  by (metis of_int_le_iff of_int_numeral of_int_power)

lemma of_nat_less_pow2: "m < 2 ^ n \<Longrightarrow> (of_nat m :: rat) < 2 ^ n"
  by (metis of_nat_less_iff of_nat_numeral of_nat_power)

lemma round64_exact:
  assumes "representable a"
  shows "round64 s a = Finite s a"
proof (cases "a = 0")
  case True
  then show ?thesis by (simp add: round64_def)
next
  case False
  from assms obtain m k where a: "a = of_nat m * 2 powi k" and m: "m < 2 ^ 53"
    and k: "- 1074 \<le> k" and lt: "a < 2 powi 1024"
    unfolding representable_def by blast
  have mpos: "0 < m" using False a by (cases "m = 0") auto
  then have apos: "0 < a" unfolding a by (simp add: zero_less_mult_iff)
  define e where "e = max (flog2 a) (- 1022)"
  have "(of_nat m :: rat) < 2 ^ 53" using m by (rule of_nat_less_pow2)
  then have "a < 2 ^ 53 * 2 powi k" unfolding a by (intro mult_strict_right_mono) auto
  also have "\<dots> = 2 powi (k + 53)" by (simp add: power_int_add)
  finally have "2 powi flog2 a < (2::rat) powi (k + 53)"
    using flog2_bounds[OF apos] by (meson le_less_trans)
  then have "flog2 a < k + 53" by (simp only: powi2_less_iff)
  then have ek: "0 \<le> k - e + 52" using k by (simp add: e_def)
  have "a / 2 powi (e - 52) = of_nat m * 2 powi (k - e + 52)"
    unfolding a by (simp add: power_int_diff power_int_add field_simps)
  also have "\<dots> = of_int (int m * 2 ^ nat (k - e + 52))"
    using ek by (simp add: power_int_nonneg_exp)
  finally have "round_half_even (a / 2 powi (e - 52)) = int m * 2 ^ nat (k - e + 52)"
    by (simp only: round_half_even_of_int)
  moreover have "of_int (int m * 2 ^ nat (k - e + 52)) * 2 powi (e - 52) = a"
  proof -
    have "of_int (int m * 2 ^ nat (k - e + 52)) * 2 powi (e - 52)
        = of_nat m * 2 powi (k - e + 52) * (2::rat) powi (e - 52)"
      using ek by (simp add: power_int_nonneg_exp)
    also have "\<dots> = of_nat m * 2 powi ((k - e + 52) + (e - 52))"
      by (simp only: powi2_mult mult.assoc)
    finally show ?thesis by (simp add: a)
  qed
  ultimately show ?thesis
    using False lt by (simp add: round64_def Let_def e_def[symmetric])
qed


lemma round64_ge1:
  assumes "1 \<le> a"
  shows "round64 s a = Infinity s \<or> (\<exists>v. round64 s a = Finite s v \<and> 1 \<le> v \<and> representable v)"
proof -
  have apos: "0 < a" using assms by simp
  define e where "e = flog2 a"
  from flog2_bounds[OF apos] have lo: "2 powi e \<le> a" and hi: "a < 2 powi (e + 1)"
    by (auto simp: e_def)
  have "(2::rat) powi 0 < 2 powi (e + 1)" using assms hi by simp
  then have "0 < e + 1" by (simp only: powi2_less_iff)
  then have e0: "0 \<le> e" by simp
  then have mx: "max (flog2 a) (- 1022) = e" by (simp add: e_def)
  define u :: rat where "u = 2 powi (e - 52)"
  define m where "m = round_half_even (a / u)"
  have upos: "0 < u" by (simp add: u_def)
  have "2 powi e / u \<le> a / u" using lo upos by (simp add: divide_right_mono)
  moreover have "2 powi e / u = of_int (2 ^ 52)" unfolding u_def by (simp only: powi2_div) simp
  ultimately have mlo: "2 ^ 52 \<le> m" unfolding m_def by (intro round_half_even_lower) simp
  have "a / u \<le> 2 powi (e + 1) / u" using hi upos by (simp add: divide_right_mono)
  moreover have "2 powi (e + 1) / u = of_int (2 ^ 53)" unfolding u_def by (simp only: powi2_div) simp
  ultimately have mhi: "m \<le> 2 ^ 53" unfolding m_def by (intro round_half_even_upper) simp
  define v where "v = of_int m * u"
  have r: "round64 s a = (if 2 powi 1024 \<le> v then Infinity s else Finite s v)"
    using apos by (simp add: round64_def Let_def mx u_def[symmetric] m_def[symmetric] v_def)
  show ?thesis
  proof (cases "2 powi 1024 \<le> v")
    case True
    then show ?thesis by (simp add: r)
  next
    case False
    have "(2::rat) ^ 52 \<le> of_int m" using mlo by (metis of_int_le_iff of_int_numeral of_int_power)
    then have "2 ^ 52 * u \<le> v" unfolding v_def using upos by (intro mult_right_mono) auto
    moreover have "2 ^ 52 * u = 2 powi 52 * 2 powi (e - 52)" by (simp add: u_def)
    moreover have "2 powi 52 * 2 powi (e - 52) = (2::rat) powi e" by (rule powi2_52_mult)
    moreover have "(1::rat) \<le> 2 powi e" using e0 by (intro one_le_power_int) auto
    ultimately have v1: "1 \<le> v" by simp
    from False have vlt: "v < 2 powi 1024" by (simp only: linorder_not_le)
    have "representable v"
    proof (cases "m = 2 ^ 53")
      case True
      then have "v = 2 powi 53 * 2 powi (e - 52)" by (simp add: v_def u_def)
      also have "\<dots> = 2 powi (e + 1)" by (rule powi2_53_mult)
      finally have "v = of_nat 1 * 2 powi (e + 1)" by simp
      moreover have "(1::nat) < 2 ^ 53" by simp
      moreover have "- 1074 \<le> e + 1" using e0 by simp
      ultimately show ?thesis using vlt by (rule representableI)
    next
      case F: False
      have m0: "0 \<le> m" using mlo by (meson order_trans zero_le_numeral zero_le_power)
      then have "v = of_nat (nat m) * 2 powi (e - 52)" by (simp add: v_def u_def)
      moreover have "nat m < 2 ^ 53" using F mhi m0 by (simp add: nat_less_iff)
      moreover have "- 1074 \<le> e - 52" using e0 by simp
      ultimately show ?thesis using vlt by (rule representableI)
    qed
    then show ?thesis using v1 False by (simp add: r)
  qed
qed

lemma round64_finite:
  assumes "1 \<le> a" "a \<le> 2 powi 64"
  shows "round64 s a \<noteq> Infinity t"
proof -
  have apos: "0 < a" using assms by simp
  define e where "e = flog2 a"
  from flog2_bounds[OF apos] have lo: "2 powi e \<le> a" and hi: "a < 2 powi (e + 1)"
    by (auto simp: e_def)
  have "(2::rat) powi 0 < 2 powi (e + 1)" using assms hi by simp
  then have "0 < e + 1" by (simp only: powi2_less_iff)
  then have e0: "0 \<le> e" by simp
  have "(2::rat) powi e \<le> 2 powi 64" using lo assms(2) by simp
  then have e64: "e \<le> 64" by (simp only: powi2_le_iff)
  have mx: "max (flog2 a) (- 1022) = e" using e0 by (simp add: e_def)
  define u :: rat where "u = 2 powi (e - 52)"
  define m where "m = round_half_even (a / u)"
  have upos: "0 < u" by (simp add: u_def)
  have "a / u \<le> 2 powi (e + 1) / u" using hi upos by (simp add: divide_right_mono)
  moreover have "2 powi (e + 1) / u = of_int (2 ^ 53)" unfolding u_def by (simp only: powi2_div) simp
  ultimately have mhi: "m \<le> 2 ^ 53" unfolding m_def by (intro round_half_even_upper) simp
  then have "(of_int m :: rat) \<le> 2 ^ 53" by (metis of_int_le_iff of_int_numeral of_int_power)
  then have "of_int m * u \<le> 2 ^ 53 * u" using upos by (intro mult_right_mono) auto
  also have "2 ^ 53 * u = 2 powi 53 * 2 powi (e - 52)" by (simp add: u_def)
  also have "\<dots> = 2 powi (e + 1)" by (rule powi2_53_mult)
  also have "\<dots> < 2 powi 1024" using e64 by (simp only: powi2_less_iff)
  finally have "\<not> 2 powi 1024 \<le> of_int m * u" by simp
  then show ?thesis
    using apos by (simp add: round64_def Let_def mx u_def[symmetric] m_def[symmetric])
qed

lemma representable_div_pow2:
  assumes "representable a" "2 powi (- 900) \<le> a" "j \<le> 100"
  shows "representable (a / 2 ^ j)"
proof -
  from assms(1) obtain m k where a: "a = of_nat m * 2 powi k" and m: "m < 2 ^ 53"
    and k: "- 1074 \<le> k" and lt: "a < 2 powi 1024"
    unfolding representable_def by blast
  have "(of_nat m :: rat) < 2 ^ 53" using m by (rule of_nat_less_pow2)
  then have "a < 2 ^ 53 * 2 powi k" unfolding a by (intro mult_strict_right_mono) auto
  also have "\<dots> = 2 powi (k + 53)" by (simp add: power_int_add)
  finally have "(2::rat) powi (- 900) < 2 powi (k + 53)" using assms(2) by simp
  then have "- 900 < k + 53" by (simp only: powi2_less_iff)
  then have kj: "- 1074 \<le> k - int j" using assms(3) by simp
  have aj: "a / 2 ^ j = of_nat m * 2 powi (k - int j)"
    unfolding a by (simp add: power_int_diff)
  have "0 \<le> a" unfolding a by simp
  then have "a / 2 ^ j \<le> a / 1" by (intro divide_left_mono) auto
  then have "a / 2 ^ j < 2 powi 1024" using lt by simp
  with aj m kj show ?thesis by (rule representableI)
qed

lemma representable_0 [simp]: "representable 0"
  by (rule representableI[of _ 0 0]) simp_all

lemma representable_of_nat:
  assumes "n < 2 ^ 53"
  shows "representable (of_nat n)"
proof (rule representableI[of _ n 0])
  have "(of_nat n :: rat) < 2 ^ 53" using assms by (rule of_nat_less_pow2)
  also have "\<dots> = 2 powi 53" by simp
  also have "\<dots> < 2 powi 1024" by (simp only: powi2_less_iff)
  finally show "(of_nat n :: rat) < 2 powi 1024" .
qed (use assms in simp_all)

lemma float64_of_uint64_small:
  assumes "unat w < 2 ^ 53"
  shows "float64_of_uint64 w = Finite False (of_nat (unat w))"
  unfolding float64_of_uint64_def
  using assms by (intro round64_exact representable_of_nat)

lemma round64_of_nat_cases:
  assumes "n < 2 ^ 64"
  shows "\<exists>a. round64 False (of_nat n) = Finite False a \<and> representable a \<and> (a = 0 \<or> 1 \<le> a)"
proof (cases "n = 0")
  case True
  then show ?thesis by (simp add: round64_def)
next
  case False
  then have 1: "(1::rat) \<le> of_nat n" by simp
  have "(of_nat n :: rat) < 2 ^ 64" using assms by (rule of_nat_less_pow2)
  then have 2: "(of_nat n :: rat) \<le> 2 powi 64" by simp
  from round64_ge1[OF 1, of False] round64_finite[OF 1 2, of False False]
  show ?thesis by auto
qed

lemma float64_of_uint64_cases:
  "\<exists>a. float64_of_uint64 w = Finite False a \<and> representable a \<and> (a = 0 \<or> 1 \<le> a)"
proof -
  have "unat w < 2 ^ 64" using unsigned_less[of w] by simp
  then show ?thesis unfolding float64_of_uint64_def by (rule round64_of_nat_cases)
qed

lemma float64_of_int_pos:
  assumes "1 \<le> i"
  shows "float64_of_int i = Infinity False \<or> (\<exists>v. float64_of_int i = Finite False v \<and> 1 \<le> v)"
proof -
  have "(1::rat) \<le> of_int \<bar>i\<bar>" using assms by simp
  from round64_ge1[OF this, of False] show ?thesis
    using assms by (auto simp: float64_of_int_def)
qed

lemma float64_of_int_small:
  assumes "0 \<le> i" "i < 2 ^ 53"
  shows "float64_of_int i = Finite False (of_int i)"
proof -
  have "nat i < 2 ^ 53" using assms by (simp add: nat_less_iff)
  then have "representable (of_nat (nat i))" by (rule representable_of_nat)
  then have "round64 False (of_nat (nat i)) = Finite False (of_nat (nat i))" by (rule round64_exact)
  then show ?thesis using assms by (simp add: float64_of_int_def)
qed

lemma representable_grid:
  assumes "representable a"
  shows "\<exists>N::int. a = of_int N * 2 powi (- 1074)"
proof -
  from assms obtain m k where a: "a = of_nat m * 2 powi k" and k: "- 1074 \<le> k"
    unfolding representable_def by blast
  have "2 powi k = 2 powi (k + 1074) * (2::rat) powi (- 1074)"
    by (simp only: powi2_mult) simp
  also have "2 powi (k + 1074) = (of_int (2 ^ nat (k + 1074)) :: rat)"
    using k by (simp add: power_int_nonneg_exp)
  finally have "a = of_int (int m * 2 ^ nat (k + 1074)) * 2 powi (- 1074)"
    unfolding a by simp
  then show ?thesis by blast
qed

lemma round64_nonzero:
  assumes "2 powi (- 1074) \<le> a"
  shows "round64 s a = Infinity s \<or> (\<exists>v. round64 s a = Finite s v \<and> v \<noteq> 0)"
proof -
  have apos: "0 < a" using assms by (rule less_le_trans[rotated]) simp
  define e where "e = max (flog2 a) (- 1022)"
  define u :: rat where "u = 2 powi (e - 52)"
  define m where "m = round_half_even (a / u)"
  have upos: "0 < u" by (simp add: u_def)
  have "1 \<le> a / u"
  proof (cases "flog2 a \<le> - 1022")
    case True
    then have "u = 2 powi (- 1074)" by (simp add: u_def e_def)
    then show ?thesis using assms upos by (simp add: le_divide_eq)
  next
    case False
    then have "e = flog2 a" by (simp add: e_def)
    then have "2 powi e \<le> a" using flog2_bounds[OF apos] by simp
    moreover have "u \<le> 2 powi e" unfolding u_def by (simp add: powi2_le_iff)
    ultimately have "u \<le> a" by simp
    then show ?thesis using upos by (simp add: le_divide_eq)
  qed
  then have "of_int 1 \<le> a / u" by simp
  then have "1 \<le> m" unfolding m_def by (rule round_half_even_lower)
  then have "of_int m * u \<noteq> 0" using upos by simp
  then show ?thesis
    using apos by (simp add: round64_def Let_def e_def[symmetric] u_def[symmetric] m_def[symmetric])
qed

lemma fsub_self: "fsub (Finite False a) (Finite False a) = Finite False 0"
  by (simp add: sval_def)

lemma fsub_distinct:
  assumes "representable a" "representable b" "a \<noteq> b"
  shows "fsub (Finite False a) (Finite False b) = Infinity (a < b)
       \<or> (\<exists>v. fsub (Finite False a) (Finite False b) = Finite (a < b) v \<and> v \<noteq> 0)"
proof -
  from representable_grid[OF assms(1)] obtain M :: int where a: "a = of_int M * 2 powi (- 1074)" by blast
  from representable_grid[OF assms(2)] obtain N :: int where b: "b = of_int N * 2 powi (- 1074)" by blast
  have "M \<noteq> N" using assms(3) a b by auto
  then have "1 \<le> \<bar>M - N\<bar>" by simp
  then have "(1::rat) \<le> of_int \<bar>M - N\<bar>" by (simp only: of_int_1_le_iff)
  then have "1 * 2 powi (- 1074) \<le> of_int \<bar>M - N\<bar> * (2::rat) powi (- 1074)"
    by (intro mult_right_mono) auto
  also have "of_int \<bar>M - N\<bar> * (2::rat) powi (- 1074) = \<bar>a - b\<bar>"
    unfolding a b by (simp add: abs_mult left_diff_distrib[symmetric] del: power_int_numeral_neg_numeral)
  finally have "2 powi (- 1074) \<le> \<bar>a - b\<bar>" by simp
  from round64_nonzero[OF this, of "a - b < 0"] show ?thesis
    using assms(3) by (simp add: sval_def Let_def)
qed

lemma fdiv_pow2_exact:
  assumes "representable a" "a = 0 \<or> 2 powi (- 900) \<le> a" "j \<le> 100"
  shows "fdiv (Finite False a) (Finite False (2 ^ j)) = Finite False (a / 2 ^ j)"
proof (cases "a = 0")
  case True
  then show ?thesis by (simp add: round64_def)
next
  case False
  then have "representable (a / 2 ^ j)" using assms by (intro representable_div_pow2) auto
  then show ?thesis by (simp add: round64_exact)
qed

lemma div_1024_twice:
  "fdiv (fdiv (float64_of_uint64 w) (Finite False 1024)) (Finite False 1024)
     = fdiv (float64_of_uint64 w) (Finite False 1048576)"
proof -
  from float64_of_uint64_cases[of w] obtain a
    where w: "float64_of_uint64 w = Finite False a" and r: "representable a" and a: "a = 0 \<or> 1 \<le> a"
    by blast
  have "(2::rat) powi (- 900) \<le> 2 powi 0" by (simp only: powi2_le_iff)
  then have lo: "(2::rat) powi (- 900) \<le> 1" by simp
  have a': "a = 0 \<or> 2 powi (- 900) \<le> a" using a lo by auto
  have 1: "fdiv (Finite False a) (Finite False (2 ^ 10)) = Finite False (a / 2 ^ 10)"
    using r a' by (rule fdiv_pow2_exact) simp
  have 3: "fdiv (Finite False a) (Finite False (2 ^ 20)) = Finite False (a / 2 ^ 20)"
    using r a' by (rule fdiv_pow2_exact) simp
  have r1: "representable (a / 2 ^ 10)"
  proof (cases "a = 0")
    case False
    then show ?thesis using r a' by (intro representable_div_pow2) auto
  qed simp
  have "a \<noteq> 0 \<Longrightarrow> 2 powi (- 900) \<le> a / 2 ^ 10"
  proof -
    assume "a \<noteq> 0"
    then have "1 \<le> a" using a by simp
    then have "1 / 2 ^ 10 \<le> a / 2 ^ 10" by (simp add: divide_right_mono)
    moreover have "(2::rat) powi (- 900) \<le> 2 powi (- 10)" by (simp only: powi2_le_iff)
    ultimately show ?thesis by (simp add: power_int_minus_divide)
  qed
  then have a1: "a / 2 ^ 10 = 0 \<or> 2 powi (- 900) \<le> a / 2 ^ 10" by auto
  have 2: "fdiv (Finite False (a / 2 ^ 10)) (Finite False (2 ^ 10)) = Finite False (a / 2 ^ 10 / 2 ^ 10)"
    using r1 a1 by (rule fdiv_pow2_exact) simp
  have "fdiv (fdiv (Finite False a) (Finite False 1024)) (Finite False 1024) = Finite False (a / 2 ^ 10 / 2 ^ 10)"
    using 1 2 by simp
  moreover have "fdiv (Finite False a) (Finite False 1048576) = Finite False (a / 2 ^ 20)"
    using 3 by simp
  ultimately show ?thesis by (simp add: w)
qed







section \<open>The CPU percentage\<close>

lemma fmul_Infinity_count:
  assumes "1 \<le> n"
  shows "fmul (fmul (Infinity s) (float64_of_int n)) (Finite False 100) = Infinity s"
  using float64_of_int_pos[OF assms] by auto

lemma calculateCPUPercentage_unfold:
  "calculateCPUPercentage stats =
     fmul (fmul (fdiv (fsub (float64_of_uint64 (TotalUsage (CPUUsage (CPUStats stats))))
                            (float64_of_uint64 (TotalUsage (CPUUsage (PreCPUStats stats)))))
                      (fsub (float64_of_uint64 (SystemUsage (CPUStats stats)))
                            (float64_of_uint64 (SystemUsage (PreCPUStats stats)))))
                (float64_of_int (if PercpuUsage (CPUUsage (CPUStats stats)) = [] then 7
                                 else int (length (PercpuUsage (CPUUsage (CPUStats stats)))))))
          (Finite False 100)"
  by (simp add: calculateCPUPercentage_def Let_def)

lemma count_pos:
  "1 \<le> (if xs = [] then 7 else int (length xs))"
  by (cases xs) auto

lemma zero_system_delta:
  assumes "SystemUsage (CPUStats stats) = SystemUsage (PreCPUStats stats)"
    and c: "float64_of_uint64 (TotalUsage (CPUUsage (CPUStats stats))) = Finite False a"
    and p: "float64_of_uint64 (TotalUsage (CPUUsage (PreCPUStats stats))) = Finite False b"
  shows "calculateCPUPercentage stats = (if a = b then NaN else Infinity (a < b))"
proof -
  obtain y where y: "float64_of_uint64 (SystemUsage (PreCPUStats stats)) = Finite False y"
    using float64_of_uint64_cases by blast
  have sys: "fsub (float64_of_uint64 (SystemUsage (CPUStats stats)))
      (float64_of_uint64 (SystemUsage (PreCPUStats stats))) = Finite False 0"
    unfolding assms(1) y by (rule fsub_self)
  have ra: "representable a" using float64_of_uint64_cases[of "TotalUsage (CPUUsage (CPUStats stats))"] c
    by auto
  have rb: "representable b" using float64_of_uint64_cases[of "TotalUsage (CPUUsage (PreCPUStats stats))"] p
    by auto
  show ?thesis
  proof (cases "a = b")
    case True
    then show ?thesis
      unfolding calculateCPUPercentage_unfold sys c p by (simp add: fsub_self)
  next
    case False
    from fsub_distinct[OF ra rb False]
    have "fdiv (fsub (Finite False a) (Finite False b)) (Finite False 0) = Infinity (a < b)"
      by auto
    then show ?thesis
      unfolding calculateCPUPercentage_unfold sys c p
      using False by (simp only: fmul_Infinity_count[OF count_pos] if_False)
  qed
qed

lemma float64_of_uint64_numeral_small:
  "float64_of_uint64 10 = Finite False 10" "float64_of_uint64 20 = Finite False 20"
  "float64_of_uint64 100 = Finite False 100" "float64_of_uint64 200 = Finite False 200"
proof -
  have s: "unat (10 :: 64 word) < 2 ^ 53" "unat (20 :: 64 word) < 2 ^ 53"
    "unat (100 :: 64 word) < 2 ^ 53" "unat (200 :: 64 word) < 2 ^ 53" by simp_all
  show "float64_of_uint64 10 = Finite False 10" using float64_of_uint64_small[OF s(1)] by simp
  show "float64_of_uint64 20 = Finite False 20" using float64_of_uint64_small[OF s(2)] by simp
  show "float64_of_uint64 100 = Finite False 100" using float64_of_uint64_small[OF s(3)] by simp
  show "float64_of_uint64 200 = Finite False 200" using float64_of_uint64_small[OF s(4)] by simp
qed

text \<open>
  C3, as amended: with equal system-time counters the calculator divides by a zero system
  delta, unguarded, and never returns \<open>0.0\<close>: the result is NaN when the two CPU counters
  convert to the same \<open>float64\<close>, and an infinity otherwise, positive when the CPU
  counter grew (for counters below \<open>2^53\<close>, which convert exactly).
\<close>

theorem calculateCPUPercentage_zero_delta:
  assumes "SystemUsage (CPUStats stats) = SystemUsage (PreCPUStats stats)"
  shows "(float64_of_uint64 (TotalUsage (CPUUsage (CPUStats stats)))
            = float64_of_uint64 (TotalUsage (CPUUsage (PreCPUStats stats)))
          \<longrightarrow> calculateCPUPercentage stats = NaN)
       \<and> (float64_of_uint64 (TotalUsage (CPUUsage (CPUStats stats)))
            \<noteq> float64_of_uint64 (TotalUsage (CPUUsage (PreCPUStats stats)))
          \<longrightarrow> calculateCPUPercentage stats = Infinity False
              \<or> calculateCPUPercentage stats = Infinity True)
       \<and> (unat (TotalUsage (CPUUsage (CPUStats stats))) < 2 ^ 53
            \<and> unat (TotalUsage (CPUUsage (PreCPUStats stats))) < 2 ^ 53
          \<longrightarrow> calculateCPUPercentage stats =
                (if TotalUsage (CPUUsage (CPUStats stats)) = TotalUsage (CPUUsage (PreCPUStats stats))
                 then NaN
                 else Infinity (TotalUsage (CPUUsage (CPUStats stats))
                                  < TotalUsage (CPUUsage (PreCPUStats stats)))))
       \<and> \<not> is_zero (calculateCPUPercentage stats)"
proof -
  let ?c = "TotalUsage (CPUUsage (CPUStats stats))"
  let ?p = "TotalUsage (CPUUsage (PreCPUStats stats))"
  obtain a where a: "float64_of_uint64 ?c = Finite False a"
    using float64_of_uint64_cases by blast
  obtain b where b: "float64_of_uint64 ?p = Finite False b"
    using float64_of_uint64_cases by blast
  note r = zero_system_delta[OF assms a b]
  have 1: "float64_of_uint64 ?c = float64_of_uint64 ?p \<longrightarrow> calculateCPUPercentage stats = NaN"
    using r by (simp add: a b)
  have 2: "float64_of_uint64 ?c \<noteq> float64_of_uint64 ?p
      \<longrightarrow> calculateCPUPercentage stats = Infinity False \<or> calculateCPUPercentage stats = Infinity True"
    using r by (cases "a < b") (simp_all add: a b)
  have 3: "unat ?c < 2 ^ 53 \<and> unat ?p < 2 ^ 53
      \<longrightarrow> calculateCPUPercentage stats = (if ?c = ?p then NaN else Infinity (?c < ?p))"
  proof
    assume h: "unat ?c < 2 ^ 53 \<and> unat ?p < 2 ^ 53"
    then have a': "a = of_nat (unat ?c)" and b': "b = of_nat (unat ?p)"
      using a b float64_of_uint64_small[of ?c] float64_of_uint64_small[of ?p] by auto
    have "a = b \<longleftrightarrow> ?c = ?p" unfolding a' b' by (simp only: of_nat_eq_iff word_unat_eq_iff)
    moreover have "a < b \<longleftrightarrow> ?c < ?p" unfolding a' b' by (simp only: of_nat_less_iff word_less_nat_alt)
    ultimately show "calculateCPUPercentage stats = (if ?c = ?p then NaN else Infinity (?c < ?p))"
      using r by simp
  qed
  have 4: "\<not> is_zero (calculateCPUPercentage stats)" using r by (cases "a = b") simp_all
  from 1 2 3 4 show ?thesis by blast
qed

theorem calculateCPUPercentage_zero_delta_witness:
  "SystemUsage (CPUStats (snapshot 20 10 100 100 [0, 0, 0, 0]))
     = SystemUsage (PreCPUStats (snapshot 20 10 100 100 [0, 0, 0, 0]))
   \<and> calculateCPUPercentage (snapshot 20 10 100 100 [0, 0, 0, 0]) = Infinity False
   \<and> \<not> is_zero (calculateCPUPercentage (snapshot 20 10 100 100 [0, 0, 0, 0]))"
proof -
  have h: "SystemUsage (CPUStats (snapshot 20 10 100 100 [0, 0, 0, 0]))
     = SystemUsage (PreCPUStats (snapshot 20 10 100 100 [0, 0, 0, 0]))"
    by (simp add: snapshot_def)
  have c: "TotalUsage (CPUUsage (CPUStats (snapshot 20 10 100 100 [0, 0, 0, 0]))) = 20"
    "TotalUsage (CPUUsage (PreCPUStats (snapshot 20 10 100 100 [0, 0, 0, 0]))) = 10"
    by (simp_all add: snapshot_def)
  have s: "unat (20 :: 64 word) < 2 ^ 53 \<and> unat (10 :: 64 word) < 2 ^ 53" by simp
  from calculateCPUPercentage_zero_delta[OF h] s h show ?thesis
    unfolding c by simp
qed

text \<open>
  C3 as stated fails: counters \<open>(20, 10, 100, 100)\<close> with four cores give \<open>+Inf\<close>,
  not \<open>0.0\<close>.
\<close>

theorem calculateCPUPercentage_zero_delta_counterexample:
  "SystemUsage (CPUStats (snapshot 20 10 100 100 [0, 0, 0, 0]))
     = SystemUsage (PreCPUStats (snapshot 20 10 100 100 [0, 0, 0, 0]))
   \<and> calculateCPUPercentage (snapshot 20 10 100 100 [0, 0, 0, 0]) = Infinity False
   \<and> calculateCPUPercentage (snapshot 20 10 100 100 [0, 0, 0, 0]) \<noteq> Finite False 0"
proof -
  have "fsub (Finite False 20) (Finite False 10) = Finite False 10"
    using round64_exact[OF representable_of_nat[of 10], of False] by (simp add: sval_def)
  moreover have "float64_of_int 4 = Finite False 4"
    using float64_of_int_small[of 4] by simp
  ultimately have "calculateCPUPercentage (snapshot 20 10 100 100 [0, 0, 0, 0]) = Infinity False"
    unfolding calculateCPUPercentage_unfold
    by (simp add: snapshot_def float64_of_uint64_numeral_small fsub_self)
  then show ?thesis by (simp add: snapshot_def)
qed





















section \<open>The sample decoder\<close>

lemma one_ge_powi_900: "(2::rat) powi (- 900) \<le> 1"
proof -
  have "(2::rat) powi (- 900) \<le> 2 powi 0" by (simp only: powi2_le_iff)
  then show ?thesis by simp
qed

lemma fdiv_MiB:
  assumes "float64_of_uint64 w = Finite False a"
  shows "fdiv (float64_of_uint64 w) (Finite False 1048576) = Finite False (a / 1048576)"
proof -
  from float64_of_uint64_cases[of w] assms have r: "representable a" and a: "a = 0 \<or> 1 \<le> a"
    by auto
  have "a = 0 \<or> 2 powi (- 900) \<le> a" using a one_ge_powi_900 by auto
  with r have "fdiv (Finite False a) (Finite False (2 ^ 20)) = Finite False (a / 2 ^ 20)"
    by (rule fdiv_pow2_exact) simp
  then show ?thesis by (simp add: assms)
qed

lemma fdiv_MiB_small:
  assumes "unat w < 2 ^ 53"
  shows "fdiv (float64_of_uint64 w) (Finite False 1048576)
           = Finite False (of_nat (unat w) / 1048576)"
  using float64_of_uint64_small[OF assms] by (rule fdiv_MiB)

lemma GetContainerStats_ok:
  assumes "ContainerStats cli containerID = Inr (Inr snap)"
  shows "GetContainerStats cli containerID =
           Inr \<lparr>CPUPercentage = calculateCPUPercentage snap,
                MemoryUsage = fdiv (float64_of_uint64 (Usage (MemoryStats snap)))
                                (Finite False 1048576),
                MemoryLimit = fdiv (float64_of_uint64 (Limit (MemoryStats snap)))
                                (Finite False 1048576),
                NetworkRx = fdiv (float64_of_uint64 (RxBytes (lookup (Networks snap) ''eth0'')))
                                (Finite False 1048576),
                NetworkTx = fdiv (float64_of_uint64 (TxBytes (lookup (Networks snap) ''eth0'')))
                                (Finite False 1048576)\<rparr>"
  by (simp add: GetContainerStats_def assms Decode_def Let_def div_1024_twice)

lemma web_stats: "ContainerStats (runtime fleet answers) (ID web) = Inr (Inr websnap)"
  by (simp add: runtime_def answers_def)

lemma cache_stats:
  "ContainerStats (runtime fleet answers) (ID cache) = Inr (Inr (snapshot 0 0 0 0 []))"
  by (simp add: runtime_def answers_def web_def cache_def)

text \<open>
  C7: the decoder's memory usage and limit are the byte counts divided by \<open>1048576\<close>:
  the two divisions by \<open>1024\<close> of the source are exact in binary64, so they equal one
  division by \<open>1048576\<close>, and for a count below \<open>2^53\<close> the result is the exact
  quotient. Nothing is clamped: the equation holds for every 64-bit count. A usage of
  \<open>1048576\<close> bytes decodes to \<open>1.0\<close>.
\<close>

theorem GetContainerStats_memory:
  assumes "ContainerStats cli containerID = Inr (Inr snap)"
  shows "\<exists>s. GetContainerStats cli containerID = Inr s
           \<and> MemoryUsage s = fdiv (float64_of_uint64 (Usage (MemoryStats snap)))
                                (Finite False 1048576)
           \<and> MemoryLimit s = fdiv (float64_of_uint64 (Limit (MemoryStats snap)))
                                (Finite False 1048576)
           \<and> (unat (Usage (MemoryStats snap)) < 2 ^ 53 \<longrightarrow>
                MemoryUsage s = Finite False (of_nat (unat (Usage (MemoryStats snap))) / 1048576))
           \<and> (unat (Limit (MemoryStats snap)) < 2 ^ 53 \<longrightarrow>
                MemoryLimit s = Finite False (of_nat (unat (Limit (MemoryStats snap))) / 1048576))
           \<and> (Usage (MemoryStats snap) = 1048576 \<longrightarrow> MemoryUsage s = Finite False 1)"
proof -
  have "Usage (MemoryStats snap) = 1048576 \<longrightarrow>
      fdiv (float64_of_uint64 (Usage (MemoryStats snap))) (Finite False 1048576) = Finite False 1"
  proof
    assume u: "Usage (MemoryStats snap) = 1048576"
    have "unat (1048576 :: 64 word) < 2 ^ 53" by simp
    from fdiv_MiB_small[OF this] show
      "fdiv (float64_of_uint64 (Usage (MemoryStats snap))) (Finite False 1048576) = Finite False 1"
      by (simp add: u)
  qed
  then show ?thesis
    by (simp add: GetContainerStats_ok[OF assms] fdiv_MiB_small)
qed

theorem GetContainerStats_memory_witness:
  "ContainerStats (runtime fleet answers) (ID web) = Inr (Inr websnap)
   \<and> (\<exists>s. GetContainerStats (runtime fleet answers) (ID web) = Inr s
         \<and> MemoryUsage s = Finite False 1 \<and> MemoryLimit s = Finite False 2)"
proof -
  have u: "Usage (MemoryStats websnap) = 1048576" "Limit (MemoryStats websnap) = 2097152"
    by (simp_all add: websnap_def)
  from GetContainerStats_memory[OF web_stats] web_stats show ?thesis
    by (auto simp: u)
qed

text \<open>
  C8: when the snapshot's network map has no \<open>eth0\<close> entry the decoder returns a sample,
  not an error, whose received and transmitted megabytes are both \<open>+0\<close>; when the entry
  is there they are its byte counters divided by \<open>1048576\<close>: for every 64-bit counter the
  two divisions by \<open>1024\<close> equal the one division, for a counter below \<open>2^53\<close> the
  result is the exact quotient, and \<open>3145728\<close> bytes received with \<open>1048576\<close>
  transmitted decode to \<open>3.0\<close> and \<open>1.0\<close>.
\<close>

theorem GetContainerStats_network:
  assumes "ContainerStats cli containerID = Inr (Inr snap)"
  shows "\<exists>s. GetContainerStats cli containerID = Inr s
           \<and> (Networks snap ''eth0'' = None \<longrightarrow>
                NetworkRx s = Finite False 0 \<and> NetworkTx s = Finite False 0)
           \<and> (\<forall>n. Networks snap ''eth0'' = Some n \<longrightarrow>
                NetworkRx s = fdiv (float64_of_uint64 (RxBytes n)) (Finite False 1048576)
                \<and> NetworkTx s = fdiv (float64_of_uint64 (TxBytes n)) (Finite False 1048576))
           \<and> (\<forall>n. Networks snap ''eth0'' = Some n \<and> unat (RxBytes n) < 2 ^ 53 \<longrightarrow>
                NetworkRx s = Finite False (of_nat (unat (RxBytes n)) / 1048576))
           \<and> (\<forall>n. Networks snap ''eth0'' = Some n \<and> unat (TxBytes n) < 2 ^ 53 \<longrightarrow>
                NetworkTx s = Finite False (of_nat (unat (TxBytes n)) / 1048576))
           \<and> (\<forall>n. Networks snap ''eth0'' = Some n \<and> RxBytes n = 3145728 \<and> TxBytes n = 1048576
                \<longrightarrow> NetworkRx s = Finite False 3 \<and> NetworkTx s = Finite False 1)"
proof -
  have z: "unat (0 :: 64 word) < 2 ^ 53" by simp
  have zero: "fdiv (float64_of_uint64 0) (Finite False 1048576) = Finite False 0"
    using fdiv_MiB_small[OF z] by simp
  have three: "fdiv (float64_of_uint64 3145728) (Finite False 1048576) = Finite False 3"
  proof -
    have "unat (3145728 :: 64 word) < 2 ^ 53" by simp
    from fdiv_MiB_small[OF this] show ?thesis by simp
  qed
  have one: "fdiv (float64_of_uint64 1048576) (Finite False 1048576) = Finite False 1"
  proof -
    have "unat (1048576 :: 64 word) < 2 ^ 53" by simp
    from fdiv_MiB_small[OF this] show ?thesis by simp
  qed
  show ?thesis
    by (auto simp: GetContainerStats_ok[OF assms] lookup_def zeroNetworkStats_def zero
        fdiv_MiB_small three one)
qed

theorem GetContainerStats_network_witness:
  "ContainerStats (runtime fleet answers) (ID cache) = Inr (Inr (snapshot 0 0 0 0 []))
   \<and> Networks (snapshot 0 0 0 0 []) ''eth0'' = None
   \<and> ContainerStats (runtime fleet answers) (ID web) = Inr (Inr websnap)
   \<and> Networks websnap ''eth0'' = Some \<lparr>RxBytes = 3145728, TxBytes = 1048576\<rparr>
   \<and> (\<exists>s. GetContainerStats (runtime fleet answers) (ID cache) = Inr s
         \<and> NetworkRx s = Finite False 0 \<and> NetworkTx s = Finite False 0)
   \<and> (\<exists>s. GetContainerStats (runtime fleet answers) (ID web) = Inr s
         \<and> NetworkRx s = fdiv (float64_of_uint64 3145728) (Finite False 1048576)
         \<and> NetworkTx s = fdiv (float64_of_uint64 1048576) (Finite False 1048576)
         \<and> NetworkRx s = Finite False 3 \<and> NetworkTx s = Finite False 1)"
proof -
  have 1: "Networks (snapshot 0 0 0 0 []) ''eth0'' = None" by (simp add: snapshot_def)
  have 2: "Networks websnap ''eth0'' = Some \<lparr>RxBytes = 3145728, TxBytes = 1048576\<rparr>"
    by (simp add: websnap_def)
  from GetContainerStats_network[OF cache_stats] 1
  have 3: "\<exists>s. GetContainerStats (runtime fleet answers) (ID cache) = Inr s
         \<and> NetworkRx s = Finite False 0 \<and> NetworkTx s = Finite False 0" by auto
  from GetContainerStats_network[OF web_stats] obtain s
    where s: "GetContainerStats (runtime fleet answers) (ID web) = Inr s"
      and a: "\<forall>n. Networks websnap ''eth0'' = Some n \<longrightarrow>
                NetworkRx s = fdiv (float64_of_uint64 (RxBytes n)) (Finite False 1048576)
                \<and> NetworkTx s = fdiv (float64_of_uint64 (TxBytes n)) (Finite False 1048576)"
      and b: "\<forall>n. Networks websnap ''eth0'' = Some n \<and> RxBytes n = 3145728 \<and> TxBytes n = 1048576
                \<longrightarrow> NetworkRx s = Finite False 3 \<and> NetworkTx s = Finite False 1"
    by blast
  from a 2 have a': "NetworkRx s = fdiv (float64_of_uint64 3145728) (Finite False 1048576)
      \<and> NetworkTx s = fdiv (float64_of_uint64 1048576) (Finite False 1048576)" by simp
  from b 2 have b': "NetworkRx s = Finite False 3 \<and> NetworkTx s = Finite False 1" by simp
  from s a' b' have 4: "\<exists>s. GetContainerStats (runtime fleet answers) (ID web) = Inr s
         \<and> NetworkRx s = fdiv (float64_of_uint64 3145728) (Finite False 1048576)
         \<and> NetworkTx s = fdiv (float64_of_uint64 1048576) (Finite False 1048576)
         \<and> NetworkRx s = Finite False 3 \<and> NetworkTx s = Finite False 1" by blast
  from cache_stats 1 web_stats 2 3 4 show ?thesis by blast
qed

section \<open>The parallel collector\<close>

lemma receive_distinct:
  assumes "distinct (map fst ms)" "\<forall>m \<in> set ms. fst m < length rs"
  shows "\<exists>rs'. receive ms rs = Inr rs' \<and> length rs' = length rs
           \<and> (\<forall>j<length rs. rs' ! j = (case map_of ms j of Some st \<Rightarrow> st | None \<Rightarrow> rs ! j))"
  using assms
proof (induction ms arbitrary: rs)
  case Nil
  then show ?case by simp
next
  case (Cons m ms)
  obtain i st where m: "m = (i, st)" by (cases m)
  from Cons.prems have i: "i < length rs" and notin: "i \<notin> fst ` set ms"
    and d: "distinct (map fst ms)" and b: "\<forall>m \<in> set ms. fst m < length (rs[i := st])"
    by (auto simp: m)
  from Cons.IH[OF d b] obtain rs' where r: "receive ms (rs[i := st]) = Inr rs'"
    and l: "length rs' = length rs"
    and n: "\<forall>j<length rs. rs' ! j = (case map_of ms j of Some st' \<Rightarrow> st' | None \<Rightarrow> rs[i := st] ! j)"
    by auto
  have none: "map_of ms i = None" using notin by (simp add: map_of_eq_None_iff)
  have "\<forall>j<length rs. rs' ! j = (case map_of (m # ms) j of Some st' \<Rightarrow> st' | None \<Rightarrow> rs ! j)"
  proof (intro allI impI)
    fix j assume j: "j < length rs"
    show "rs' ! j = (case map_of (m # ms) j of Some st' \<Rightarrow> st' | None \<Rightarrow> rs ! j)"
    proof (cases "j = i")
      case True
      then show ?thesis using n j none by (simp add: m)
    next
      case False
      then have "rs[i := st] ! j = rs ! j" by simp
      then show ?thesis using n j False by (simp add: m split: option.split)
    qed
  qed
  then show ?case using r l i by (simp add: m)
qed

lemma spawned_iff: "(i, c) \<in> set (spawned cs) \<longleftrightarrow> i < length cs \<and> c = cs ! i"
proof
  assume "(i, c) \<in> set (spawned cs)"
  then show "i < length cs \<and> c = cs ! i"
    unfolding spawned_def by (auto simp: in_set_zip)
next
  assume h: "i < length cs \<and> c = cs ! i"
  then have "[0..<length cs] ! i = fst (i, c) \<and> cs ! i = snd (i, c)
      \<and> i < length [0..<length cs] \<and> i < length cs" by simp
  then show "(i, c) \<in> set (spawned cs)"
    unfolding spawned_def in_set_zip by blast
qed

lemma completion_distinct:
  assumes "mset completion = mset (spawned cs)"
  shows "distinct (map fst completion)"
proof -
  have "mset (map fst completion) = mset (map fst (spawned cs))"
    using assms by (simp only: mset_map)
  also have "map fst (spawned cs) = [0..<length cs]" by (simp add: spawned_def)
  finally show ?thesis using mset_eq_imp_distinct_iff[of "map fst completion" "[0..<length cs]"]
    by simp
qed

lemma worker_ok:
  "snd (worker cli t) = Some m \<longleftrightarrow>
     (\<exists>stats. GetContainerStats cli (ID (snd t)) = Inr stats
        \<and> m = (fst t, \<lparr>Container = snd t, Stats = stats\<rparr>))"
  by (cases t) (auto simp: worker_def split: sum.splits)

lemma statsChan_indices:
  "map fst (List.map_filter snd (map (worker cli) ts))
     = map fst (filter (\<lambda>t. snd (worker cli t) \<noteq> None) ts)"
proof (induction ts)
  case Nil
  then show ?case by simp
next
  case (Cons t ts)
  show ?case
  proof (cases "snd (worker cli t)")
    case None
    then show ?thesis using Cons by simp
  next
    case (Some m)
    then have "fst m = fst t" by (auto simp: worker_ok)
    then show ?thesis using Cons Some by simp
  qed
qed

lemma statsChan_set:
  "set (List.map_filter snd (map (worker cli) ts))
     = {m. \<exists>t \<in> set ts. snd (worker cli t) = Some m}"
  by (induction ts) (auto split: option.splits)

lemma fetch_parallel_result:
  assumes "mset completion = mset (spawned cs)"
  shows "snd (FetchContainerStatsParallel cli completion cs) = Inr (map (slot cli) cs)"
proof -
  let ?ms = "List.map_filter snd (map (worker cli) completion)"
  let ?zs = "replicate (length cs) zeroContainerStat"
  have tasks: "set completion = set (spawned cs)" using assms by (rule mset_eq_setD)
  have d: "distinct (map fst ?ms)"
    unfolding statsChan_indices using completion_distinct[OF assms] by (rule distinct_map_filter)
  have from_task: "\<exists>stats. i < length cs \<and> GetContainerStats cli (ID (cs ! i)) = Inr stats
      \<and> st = \<lparr>Container = cs ! i, Stats = stats\<rparr>" if "(i, st) \<in> set ?ms" for i st
  proof -
    from that obtain t where t: "t \<in> set completion" "snd (worker cli t) = Some (i, st)"
      unfolding statsChan_set by blast
    obtain k c where kc: "t = (k, c)" by (cases t)
    from t(1) have "k < length cs" "c = cs ! k" unfolding tasks kc spawned_iff by auto
    with t(2) show ?thesis by (auto simp: worker_ok kc)
  qed
  have b: "\<forall>m \<in> set ?ms. fst m < length ?zs"
  proof
    fix m assume "m \<in> set ?ms"
    then have "(fst m, snd m) \<in> set ?ms" by simp
    from from_task[OF this] show "fst m < length ?zs" by auto
  qed
  from receive_distinct[OF d b] obtain rs where r: "receive ?ms ?zs = Inr rs"
    and l: "length rs = length cs"
    and n: "\<forall>j<length cs. rs ! j = (case map_of ?ms j of Some st \<Rightarrow> st | None \<Rightarrow> ?zs ! j)"
    by auto
  have "rs = map (slot cli) cs"
  proof (rule nth_equalityI)
    show "length rs = length (map (slot cli) cs)" using l by simp
  next
    fix j assume "j < length rs"
    then have j: "j < length cs" using l by simp
    then have jt: "(j, cs ! j) \<in> set completion" unfolding tasks spawned_iff by simp
    show "rs ! j = map (slot cli) cs ! j"
    proof (cases "GetContainerStats cli (ID (cs ! j))")
      case (Inl err)
      have "map_of ?ms j = None"
      proof (cases "map_of ?ms j")
        case (Some st)
        then have "(j, st) \<in> set ?ms" by (rule map_of_SomeD)
        from from_task[OF this] Inl show ?thesis by auto
      qed simp
      then show ?thesis using n j Inl by (simp add: slot_def)
    next
      case (Inr stats)
      then have "snd (worker cli (j, cs ! j)) = Some (j, \<lparr>Container = cs ! j, Stats = stats\<rparr>)"
        by (simp add: worker_ok)
      with jt have "(j, \<lparr>Container = cs ! j, Stats = stats\<rparr>) \<in> set ?ms"
        unfolding statsChan_set by blast
      with d have "map_of ?ms j = Some \<lparr>Container = cs ! j, Stats = stats\<rparr>" by simp
      then show ?thesis using n j Inr by (simp add: slot_def)
    qed
  qed
  then show ?thesis using r by (simp add: FetchContainerStatsParallel_def Let_def)
qed

lemma fetch_parallel_empty:
  "spawned [] = [] \<and> FetchContainerStatsParallel cli [] [] = ([], Inr [])"
  by (simp add: spawned_def FetchContainerStatsParallel_def)

lemma fleet_completion:
  "mset [(2, cache), (0, web), (1, db)] = mset (spawned fleet)"
  by (simp add: spawned_def fleet_def upt_rec)

text \<open>
  C1: whatever the order in which the goroutines finish, the batch has the length of the
  container list and its i-th element is the slot of the i-th container: that container with
  its sample or, when its fetch failed, the zero value. For the empty list no goroutine is
  started for a container and the batch is empty, with nothing logged.
\<close>

theorem FetchContainerStatsParallel_ordered:
  "(mset completion = mset (spawned containers) \<longrightarrow>
      (\<exists>results. snd (FetchContainerStatsParallel cli completion containers) = Inr results
         \<and> length results = length containers
         \<and> (\<forall>i<length containers. results ! i = slot cli (containers ! i))))
   \<and> spawned [] = [] \<and> FetchContainerStatsParallel cli [] [] = ([], Inr [])"
proof (intro conjI impI)
  assume "mset completion = mset (spawned containers)"
  then have "snd (FetchContainerStatsParallel cli completion containers)
      = Inr (map (slot cli) containers)" by (rule fetch_parallel_result)
  then show "\<exists>results. snd (FetchContainerStatsParallel cli completion containers) = Inr results
         \<and> length results = length containers
         \<and> (\<forall>i<length containers. results ! i = slot cli (containers ! i))"
    by simp
qed (simp_all add: fetch_parallel_empty)

theorem FetchContainerStatsParallel_ordered_witness:
  "mset [(2, cache), (0, web), (1, db)] = mset (spawned fleet)
   \<and> (\<exists>results. snd (FetchContainerStatsParallel (runtime fleet answers)
                      [(2, cache), (0, web), (1, db)] fleet) = Inr results
         \<and> length results = length fleet
         \<and> (\<forall>i<length fleet. results ! i = slot (runtime fleet answers) (fleet ! i)))"
  using FetchContainerStatsParallel_ordered[of "[(2, cache), (0, web), (1, db)]" fleet
      "runtime fleet answers"] fleet_completion
  by blast

lemma db_refused:
  "GetContainerStats (runtime fleet answers) (ID db) = Inl (RuntimeError ''No such container'')"
  by (simp add: GetContainerStats_def runtime_def answers_def web_def db_def cache_def)

lemma web_answered:
  "\<exists>stats. GetContainerStats (runtime fleet answers) (ID web) = Inr stats"
  by (simp add: GetContainerStats_def runtime_def answers_def Decode_def Let_def)

text \<open>
  C2: when the fetch or the decoding for the container at index \<open>k\<close> fails, the batch is
  still returned in full length, slot \<open>k\<close> is the zero value, and every index whose fetch
  succeeded holds its container and sample. The result is a batch whatever fails: the
  collector has no error to return and raises no panic.
\<close>

theorem FetchContainerStatsParallel_isolates_failure:
  assumes "mset completion = mset (spawned containers)"
    and "k < length containers"
    and "GetContainerStats cli (ID (containers ! k)) = Inl err"
  shows "\<exists>results. snd (FetchContainerStatsParallel cli completion containers) = Inr results
           \<and> length results = length containers
           \<and> results ! k = zeroContainerStat \<and> Stats (results ! k) = zeroStats
           \<and> (\<forall>j<length containers. \<forall>stats.
                 GetContainerStats cli (ID (containers ! j)) = Inr stats
                   \<longrightarrow> results ! j = \<lparr>Container = containers ! j, Stats = stats\<rparr>)"
proof -
  have "snd (FetchContainerStatsParallel cli completion containers)
      = Inr (map (slot cli) containers)" using assms(1) by (rule fetch_parallel_result)
  moreover have "map (slot cli) containers ! k = zeroContainerStat"
    using assms(2,3) by (simp add: slot_def)
  moreover have "Stats zeroContainerStat = zeroStats" by (simp add: zeroContainerStat_def)
  moreover have "\<forall>j<length containers. \<forall>stats.
      GetContainerStats cli (ID (containers ! j)) = Inr stats
        \<longrightarrow> map (slot cli) containers ! j = \<lparr>Container = containers ! j, Stats = stats\<rparr>"
    by (simp add: slot_def)
  ultimately show ?thesis by simp
qed

theorem FetchContainerStatsParallel_isolates_failure_witness:
  "mset [(2, cache), (0, web), (1, db)] = mset (spawned fleet)
   \<and> 1 < length fleet
   \<and> GetContainerStats (runtime fleet answers) (ID (fleet ! 1)) = Inl (RuntimeError ''No such container'')
   \<and> (\<exists>results. snd (FetchContainerStatsParallel (runtime fleet answers)
                        [(2, cache), (0, web), (1, db)] fleet) = Inr results
         \<and> length results = length fleet
         \<and> results ! 1 = zeroContainerStat \<and> Stats (results ! 1) = zeroStats
         \<and> (\<forall>j<length fleet. \<forall>stats.
               GetContainerStats (runtime fleet answers) (ID (fleet ! j)) = Inr stats
                 \<longrightarrow> results ! j = \<lparr>Container = fleet ! j, Stats = stats\<rparr>))"
proof -
  have 1: "1 < length fleet" by (simp add: fleet_def)
  have 2: "GetContainerStats (runtime fleet answers) (ID (fleet ! 1))
      = Inl (RuntimeError ''No such container'')"
    using db_refused by (simp add: fleet_def)
  from FetchContainerStatsParallel_isolates_failure[OF fleet_completion 1 2] fleet_completion 1 2
  show ?thesis by blast
qed

text \<open>
  C9: in a slot whose fetch succeeded the \<open>Container\<close> field is the input container,
  unchanged; in a slot whose fetch failed it is the zero-value container, and no slot of the
  batch carries the identifier of the container that failed.
\<close>

theorem FetchContainerStatsParallel_container_field:
  assumes "mset completion = mset (spawned containers)"
  shows "\<exists>results. snd (FetchContainerStatsParallel cli completion containers) = Inr results
           \<and> (\<forall>i<length containers.
                 Container (results ! i) =
                   (case GetContainerStats cli (ID (containers ! i)) of
                      Inr stats \<Rightarrow> containers ! i
                    | Inl err \<Rightarrow> zeroContainer))
           \<and> (\<forall>i<length containers. \<forall>err.
                 GetContainerStats cli (ID (containers ! i)) = Inl err
                   \<and> ID (containers ! i) \<noteq> []
                   \<longrightarrow> (\<forall>r \<in> set results. ID (Container r) \<noteq> ID (containers ! i)))"
proof -
  have r: "snd (FetchContainerStatsParallel cli completion containers)
      = Inr (map (slot cli) containers)" using assms by (rule fetch_parallel_result)
  have a: "\<forall>i<length containers.
      Container (map (slot cli) containers ! i) =
        (case GetContainerStats cli (ID (containers ! i)) of
           Inr stats \<Rightarrow> containers ! i | Inl err \<Rightarrow> zeroContainer)"
    by (simp add: slot_def zeroContainerStat_def split: sum.split)
  have b: "\<forall>i<length containers. \<forall>err.
      GetContainerStats cli (ID (containers ! i)) = Inl err \<and> ID (containers ! i) \<noteq> []
        \<longrightarrow> (\<forall>r \<in> set (map (slot cli) containers). ID (Container r) \<noteq> ID (containers ! i))"
  proof (intro allI impI ballI)
    fix i err r
    assume h: "GetContainerStats cli (ID (containers ! i)) = Inl err \<and> ID (containers ! i) \<noteq> []"
      and "r \<in> set (map (slot cli) containers)"
    then obtain c where c: "r = slot cli c" by auto
    show "ID (Container r) \<noteq> ID (containers ! i)"
    proof (cases "GetContainerStats cli (ID c)")
      case (Inl e)
      then show ?thesis using h
        by (auto simp: c slot_def zeroContainerStat_def zeroContainer_def)
    next
      case (Inr stats)
      then show ?thesis using h by (auto simp: c slot_def)
    qed
  qed
  from r a b show ?thesis by blast
qed

theorem FetchContainerStatsParallel_container_field_witness:
  "mset [(2, cache), (0, web), (1, db)] = mset (spawned fleet)
   \<and> (\<exists>results. snd (FetchContainerStatsParallel (runtime fleet answers)
                        [(2, cache), (0, web), (1, db)] fleet) = Inr results
         \<and> Container (results ! 0) = web \<and> Container (results ! 1) = zeroContainer
         \<and> (\<forall>r \<in> set results. ID (Container r) \<noteq> ID db))"
proof -
  from FetchContainerStatsParallel_container_field[OF fleet_completion, of "runtime fleet answers"]
  obtain results where r: "snd (FetchContainerStatsParallel (runtime fleet answers)
        [(2, cache), (0, web), (1, db)] fleet) = Inr results"
    and a: "\<forall>i<length fleet. Container (results ! i) =
        (case GetContainerStats (runtime fleet answers) (ID (fleet ! i)) of
           Inr stats \<Rightarrow> fleet ! i | Inl err \<Rightarrow> zeroContainer)"
    and b: "\<forall>i<length fleet. \<forall>err.
        GetContainerStats (runtime fleet answers) (ID (fleet ! i)) = Inl err \<and> ID (fleet ! i) \<noteq> []
          \<longrightarrow> (\<forall>r \<in> set results. ID (Container r) \<noteq> ID (fleet ! i))"
    by blast
  obtain stats where w: "GetContainerStats (runtime fleet answers) (ID web) = Inr stats"
    using web_answered by blast
  have f: "fleet ! 0 = web" "fleet ! Suc 0 = db" "0 < length fleet" "Suc 0 < length fleet"
    by (simp_all add: fleet_def)
  from a f(3) have "Container (results ! 0) =
      (case GetContainerStats (runtime fleet answers) (ID (fleet ! 0)) of
         Inr stats \<Rightarrow> fleet ! 0 | Inl err \<Rightarrow> zeroContainer)" by blast
  then have 0: "Container (results ! 0) = web" by (simp add: f(1) w)
  from a f(4) have "Container (results ! Suc 0) =
      (case GetContainerStats (runtime fleet answers) (ID (fleet ! Suc 0)) of
         Inr stats \<Rightarrow> fleet ! Suc 0 | Inl err \<Rightarrow> zeroContainer)" by blast
  then have 1: "Container (results ! 1) = zeroContainer" by (simp add: f(2) db_refused)
  have "ID db \<noteq> []" by (simp add: db_def)
  with b f(4) db_refused have 2: "\<forall>r \<in> set results. ID (Container r) \<noteq> ID db"
    unfolding f(2)[symmetric] by blast
  from fleet_completion r 0 1 2 show ?thesis by blast
qed

section \<open>The poll loop\<close>

lemma zero_slot_panics:
  "PrintStatsHorizontally green (Container zeroContainerStat) (Stats zeroContainerStat)
     = Inl SliceBoundsOutOfRange"
  "PrintStatsVertically (Container zeroContainerStat) (Stats zeroContainerStat)
     = Inl IndexOutOfRange"
  by (simp_all add: PrintStatsHorizontally_def PrintStatsVertically_def zeroContainerStat_def
      zeroContainer_def)

lemma render_panics:
  assumes "zeroContainerStat \<in> set s"
  shows "snd (render verticalFlag green s) \<noteq> None"
  using assms
proof (induction s)
  case Nil
  then show ?case by simp
next
  case (Cons stat s)
  show ?case
  proof (cases "stat = zeroContainerStat")
    case True
    then show ?thesis by (simp add: zero_slot_panics)
  next
    case False
    with Cons have "snd (render verticalFlag green s) \<noteq> None" by simp
    then show ?thesis by (auto split: sum.split prod.split)
  qed
qed

lemma iteration_panics_on_failed_fetch:
  assumes "resolve cli args = Inr containers"
    and "mset (schedule containers) = mset (spawned containers)"
    and "k < length containers"
    and "GetContainerStats cli (ID (containers ! k)) = Inl err"
  shows "snd (iteration cli green verticalFlag args schedule) \<noteq> None"
proof -
  obtain logged where f: "FetchContainerStatsParallel cli (schedule containers) containers
      = (logged, Inr (map (slot cli) containers))"
    using fetch_parallel_result[OF assms(2), of cli]
    by (cases "FetchContainerStatsParallel cli (schedule containers) containers") auto
  have "slot cli (containers ! k) = zeroContainerStat" using assms(4) by (simp add: slot_def)
  then have "zeroContainerStat \<in> set (map (slot cli) containers)"
    using assms(3) by (metis length_map nth_map nth_mem)
  then have "snd (render verticalFlag green (map (slot cli) containers)) \<noteq> None"
    by (rule render_panics)
  then obtain rows p where "render verticalFlag green (map (slot cli) containers) = (rows, Some p)"
    by (cases "render verticalFlag green (map (slot cli) containers)") auto
  then show ?thesis
    by (simp add: iteration_def assms(1) f Let_def)
qed

text \<open>
  C5: a pass of the poll loop in which a fetch fails. The collector logs the failure and
  leaves the zero-value slot; the renderer then slices the first twelve bytes of that slot's
  empty identifier (horizontal layout) or indexes its empty name list (vertical layout), and
  the process ends in a runtime panic instead of going on to the next pass. Shown with the
  single container \<open>db\<close> named on the command line, and with the listing of running
  containers, of which \<open>db\<close> is the second. The passes that \<open>main\<close> makes are the
  first, third and fourth: given a layout flag and a specifier together it has more than two
  arguments and takes its one-shot branch, so the second is the loop body alone at that input.
\<close>

theorem iteration_failed_fetch_panics:
  "iteration (runtime fleet answers) id False [''db''] spawned
     = ([LogFetchError (ID db) (RuntimeError ''No such container''), Cleared False, Header],
        Some SliceBoundsOutOfRange)
   \<and> iteration (runtime fleet answers) id True [''db''] spawned
     = ([LogFetchError (ID db) (RuntimeError ''No such container''), Cleared True],
        Some IndexOutOfRange)
   \<and> snd (iteration (runtime fleet answers) id False [] spawned) = Some SliceBoundsOutOfRange
   \<and> snd (iteration (runtime fleet answers) id True [] spawned) = Some IndexOutOfRange"
proof -
  have find: "FindContainer (runtime fleet answers) ''db'' = Inr db"
    by (simp add: FindContainer_def runtime_def fleet_def HasPrefix_def web_def db_def cache_def)
  have one: "spawned [db] = [(0, db)]" by (simp add: spawned_def)
  have fetch1: "FetchContainerStatsParallel (runtime fleet answers) [(0, db)] [db]
      = ([LogFetchError (ID db) (RuntimeError ''No such container'')], Inr [zeroContainerStat])"
    by (simp add: FetchContainerStatsParallel_def worker_def db_refused)
  have single: "iteration (runtime fleet answers) id v [''db''] spawned
      = ([LogFetchError (ID db) (RuntimeError ''No such container''), Cleared v]
           @ (if \<not> v then [Header] else []),
         Some (if v then IndexOutOfRange else SliceBoundsOutOfRange))" for v
    by (simp add: iteration_def resolve_def find one fetch1 zero_slot_panics)
  have list: "ContainerList (runtime fleet answers) ReturnListOptions = Inr [web, db]"
    by (simp add: runtime_def ReturnListOptions_def fleet_def web_def db_def cache_def)
  have two: "spawned [web, db] = [(0, web), (Suc 0, db)]" by (simp add: spawned_def upt_rec)
  obtain stats where w: "GetContainerStats (runtime fleet answers) (ID web) = Inr stats"
    using web_answered by blast
  have fetch2: "FetchContainerStatsParallel (runtime fleet answers) [(0, web), (Suc 0, db)] [web, db]
      = ([LogFetchError (ID db) (RuntimeError ''No such container'')],
         Inr [\<lparr>Container = web, Stats = stats\<rparr>, zeroContainerStat])"
    by (simp add: FetchContainerStatsParallel_def worker_def db_refused w)
  have row: "PrintStatsHorizontally id web stats = Inr (HorizontalRow ''4f2a9c01d3b7 /web'' stats)"
    "PrintStatsVertically web stats = Inr (VerticalBlock ''/web'' stats)"
    by (simp_all add: PrintStatsHorizontally_def PrintStatsVertically_def web_def)
  have multi: "snd (iteration (runtime fleet answers) id v [] spawned)
      = Some (if v then IndexOutOfRange else SliceBoundsOutOfRange)" for v
    by (simp add: iteration_def resolve_def list two fetch2 row zero_slot_panics)
  from single[of False] single[of True] multi[of False] multi[of True]
  show ?thesis by simp
qed

section \<open>Resolving a container\<close>

lemma HasPrefix_iff: "HasPrefix s pre \<longleftrightarrow> (\<exists>rest. s = pre @ rest)"
proof
  assume "HasPrefix s pre"
  then have "s = pre @ drop (length pre) s"
    unfolding HasPrefix_def by (metis append_take_drop_id)
  then show "\<exists>rest. s = pre @ rest" ..
next
  assume "\<exists>rest. s = pre @ rest"
  then show "HasPrefix s pre" by (auto simp: HasPrefix_def)
qed

lemma HasPrefix_Nil [simp]: "HasPrefix s []"
  by (simp add: HasPrefix_def)

lemma HasPrefix_refl [simp]: "HasPrefix s s"
  by (simp add: HasPrefix_def)

lemma matchName_iff:
  "matchName names spec \<longleftrightarrow> (\<exists>name \<in> set names. name = spec \<or> name = ''/'' @ spec)"
  by (induction names) auto

lemma scan_find: "scan containers spec = List.find (\<lambda>c. matches c spec) containers"
  by (induction containers) (simp_all add: matches_def matchName_iff)

lemma scan_first:
  assumes "i < length containers" "matches (containers ! i) spec"
    and "\<forall>j<i. \<not> matches (containers ! j) spec"
  shows "scan containers spec = Some (containers ! i)"
  unfolding scan_find find_Some_iff using assms by blast

lemma scan_None: "scan containers spec = None \<longleftrightarrow> (\<forall>c \<in> set containers. \<not> matches c spec)"
  unfolding scan_find find_None_iff by blast

lemma FindContainer_listed:
  assumes "ContainerList cli \<lparr>All' = True\<rparr> = Inr containers"
  shows "FindContainer cli spec =
           (case scan containers spec of Some c \<Rightarrow> Inr c | None \<Rightarrow> Inl (ContainerNotFound spec))"
  using assms by (simp add: FindContainer_def)

text \<open>
  C10: \<open>FindContainer\<close> asks the runtime for the listing with \<open>All\<close> set, which includes
  stopped containers, and returns the first container of that listing, in listing order,
  whose identifier or name matches the specifier. So of several containers that the
  specifier is an identifier prefix of, the earliest listed is returned, and the empty
  specifier, a prefix of every identifier, resolves to the first listed container and not to
  the not-found error.
\<close>

theorem FindContainer_first_match:
  assumes "ContainerList cli \<lparr>All' = True\<rparr> = Inr containers"
  shows "FindContainer cli spec =
           (case List.find (\<lambda>c. matches c spec) containers of
              Some c \<Rightarrow> Inr c | None \<Rightarrow> Inl (ContainerNotFound spec))
       \<and> (\<forall>i<length containers.
            matches (containers ! i) spec \<and> (\<forall>j<i. \<not> matches (containers ! j) spec)
              \<longrightarrow> FindContainer cli spec = Inr (containers ! i))
       \<and> (containers \<noteq> [] \<longrightarrow> FindContainer cli [] = Inr (hd containers))"
proof (intro conjI allI impI)
  show "FindContainer cli spec =
           (case List.find (\<lambda>c. matches c spec) containers of
              Some c \<Rightarrow> Inr c | None \<Rightarrow> Inl (ContainerNotFound spec))"
    by (simp add: FindContainer_listed[OF assms] scan_find)
next
  fix i
  assume "i < length containers"
    and "matches (containers ! i) spec \<and> (\<forall>j<i. \<not> matches (containers ! j) spec)"
  then have "scan containers spec = Some (containers ! i)" by (intro scan_first) auto
  then show "FindContainer cli spec = Inr (containers ! i)"
    by (simp add: FindContainer_listed[OF assms])
next
  assume "containers \<noteq> []"
  then obtain c rest where "containers = c # rest" by (cases containers) auto
  then show "FindContainer cli [] = Inr (hd containers)"
    by (simp add: FindContainer_listed[OF assms])
qed

theorem FindContainer_first_match_witness:
  "ContainerList (runtime fleet answers) \<lparr>All' = True\<rparr> = Inr fleet
   \<and> FindContainer (runtime fleet answers) ''4f2'' = Inr web
   \<and> FindContainer (runtime fleet answers) ''cache'' = Inr cache
   \<and> FindContainer (runtime fleet answers) [] = Inr web"
proof -
  have l: "ContainerList (runtime fleet answers) \<lparr>All' = True\<rparr> = Inr fleet"
    by (simp add: runtime_def)
  have m: "matches web ''4f2''" "\<not> matches web ''cache''" "\<not> matches db ''cache''"
    "matches cache ''cache''"
    by (simp_all add: matches_def HasPrefix_def web_def db_def cache_def)
  from FindContainer_first_match[OF l, of "''4f2''"] m
  have 1: "FindContainer (runtime fleet answers) ''4f2'' = Inr web"
    by (simp add: fleet_def)
  from FindContainer_first_match[OF l, of "''cache''"] m
  have 2: "FindContainer (runtime fleet answers) ''cache'' = Inr cache"
    by (simp add: fleet_def)
  from FindContainer_first_match[OF l, of "[]"]
  have "fleet \<noteq> [] \<longrightarrow> FindContainer (runtime fleet answers) [] = Inr (hd fleet)"
    by blast
  then have 3: "FindContainer (runtime fleet answers) [] = Inr web"
    by (simp add: fleet_def)
  from l 1 2 3 show ?thesis by simp
qed

text \<open>
  C6, as amended: a specifier that is the full identifier of a listed container, a prefix of
  its identifier, one of its listed names, or one of its listed names without the leading
  \<open>/\<close>, resolves to that container when no container listed before it matches the
  specifier; a specifier that no listed container matches gives the not-found error.
\<close>

theorem FindContainer_resolves:
  assumes "ContainerList cli \<lparr>All' = True\<rparr> = Inr containers"
  shows "(\<forall>i<length containers.
            (spec = ID (containers ! i) \<or> HasPrefix (ID (containers ! i)) spec
              \<or> (\<exists>name \<in> set (Names (containers ! i)). spec = name \<or> name = ''/'' @ spec))
            \<and> (\<forall>j<i. \<not> matches (containers ! j) spec)
              \<longrightarrow> FindContainer cli spec = Inr (containers ! i))
       \<and> ((\<forall>c \<in> set containers. \<not> matches c spec)
              \<longrightarrow> FindContainer cli spec = Inl (ContainerNotFound spec))"
proof (intro conjI allI impI)
  fix i
  assume i: "i < length containers"
    and h: "(spec = ID (containers ! i) \<or> HasPrefix (ID (containers ! i)) spec
              \<or> (\<exists>name \<in> set (Names (containers ! i)). spec = name \<or> name = ''/'' @ spec))
            \<and> (\<forall>j<i. \<not> matches (containers ! j) spec)"
  from h have "matches (containers ! i) spec" unfolding matches_def by auto
  with i h have "scan containers spec = Some (containers ! i)" by (intro scan_first) auto
  then show "FindContainer cli spec = Inr (containers ! i)"
    by (simp add: FindContainer_listed[OF assms])
next
  assume "\<forall>c \<in> set containers. \<not> matches c spec"
  then have "scan containers spec = None" by (simp only: scan_None)
  then show "FindContainer cli spec = Inl (ContainerNotFound spec)"
    by (simp add: FindContainer_listed[OF assms])
qed

theorem FindContainer_resolves_witness:
  "ContainerList (runtime fleet answers) \<lparr>All' = True\<rparr> = Inr fleet
   \<and> FindContainer (runtime fleet answers) ''4f2b'' = Inr db
   \<and> FindContainer (runtime fleet answers) ''nginx'' = Inl (ContainerNotFound ''nginx'')"
proof -
  have l: "ContainerList (runtime fleet answers) \<lparr>All' = True\<rparr> = Inr fleet"
    by (simp add: runtime_def)
  have m: "\<not> matches web ''4f2b''" "HasPrefix (ID db) ''4f2b''"
    "\<not> matches web ''nginx''" "\<not> matches db ''nginx''" "\<not> matches cache ''nginx''"
    by (simp_all add: matches_def HasPrefix_def web_def db_def cache_def)
  have d: "fleet ! 1 = db" "fleet ! 0 = web" "(1::nat) < length fleet" by (simp_all add: fleet_def)
  from FindContainer_resolves[OF l, of "''4f2b''"] m d
  have 1: "FindContainer (runtime fleet answers) ''4f2b'' = Inr db"
    by (metis less_one)
  from FindContainer_resolves[OF l, of "''nginx''"] m
  have 2: "FindContainer (runtime fleet answers) ''nginx'' = Inl (ContainerNotFound ''nginx'')"
    by (simp add: fleet_def)
  from l 1 2 show ?thesis by simp
qed

text \<open>
  C6 as stated fails: \<open>4f2\<close> is a prefix of the identifier of \<open>db\<close>, which is listed,
  and resolves to \<open>web\<close>, listed before it with an identifier that starts the same way.
\<close>

theorem FindContainer_ambiguous_prefix:
  "ContainerList (runtime fleet answers) \<lparr>All' = True\<rparr> = Inr fleet
   \<and> db \<in> set fleet \<and> HasPrefix (ID db) ''4f2''
   \<and> FindContainer (runtime fleet answers) ''4f2'' = Inr web \<and> web \<noteq> db"
  by (simp add: runtime_def FindContainer_def fleet_def HasPrefix_def web_def db_def cache_def)

end
